theory Spec2Isabelle
  imports Main
begin

section \<open>Results of a call\<close>

text \<open>
  Every method of the pipes and nodes is a function from the state before the call to an
  outcome. A call either returns, raises a Python exception, or suspends: \<open>Queue.put\<close>
  on a full queue and \<open>Queue.get\<close> on an empty queue block the calling thread, so a
  call that reaches one of them with no other thread running never returns. The state
  carried by \<open>Raised\<close> and \<open>Suspended\<close> is the state at the moment the call stopped,
  with every mutation made so far.
\<close>

datatype error =
    NodeFinished
  | PyException
  | AttributeError
  | RuntimeError
  | NotImplementedError
  | ValueError

datatype 's outcome = Returned 's | Raised error 's | Suspended 's

text \<open>Sequencing of two statements: the second runs only when the first returned.\<close>

fun and_then :: "'s outcome \<Rightarrow> ('s \<Rightarrow> 's outcome) \<Rightarrow> 's outcome" where
  "and_then (Returned s) f = f s"
| "and_then (Raised e s) f = Raised e s"
| "and_then (Suspended s) f = Suspended s"

section \<open>Pipe (src/brewery/pipes/base.py)\<close>

text \<open>
  Python lists are objects: \<open>queue.put(self.buffer)\<close> hands the queue a reference to
  the list the producer keeps appending to, not a copy. The pipe therefore holds a heap of
  list objects (\<open>heap\<close>, addressed by references, \<open>next_ref\<close> the next unused one);
  \<open>buffer\<close> is a reference and \<open>queue\<close> is the FIFO of references held by the
  \<open>Queue.Queue\<close> object. \<open>fieldlist\<close> is the attribute \<open>fields\<close> (the record package
  reserves that name): \<open>None\<close> or the names of the field list.
  \<open>Queue.Queue\<close> is the standard library's (Python 2): it is modelled by its contents,
  its \<open>maxsize\<close> (\<open>queue_size\<close>) and its counter \<open>unfinished_tasks\<close>.
\<close>

type_synonym ref = nat

record 'a pipe =
  buffer_size :: int
  queue_size :: int
  heap :: "ref \<Rightarrow> 'a list"
  next_ref :: ref
  buffer :: ref
  queue :: "ref list"
  unfinished_tasks :: nat
  fieldlist :: "string list option"
  finished :: bool
  stop_sending :: bool

text \<open>\<open>self.buffer = []\<close>: a new, empty list object becomes the buffer.\<close>

definition new_buffer :: "'a pipe \<Rightarrow> 'a pipe" where
  "new_buffer p =
     p\<lparr>heap := (heap p)(next_ref p := []), buffer := next_ref p, next_ref := Suc (next_ref p)\<rparr>"

text \<open>\<open>self.buffer.append(obj)\<close>: the list object is changed in place.\<close>

definition buffer_append :: "'a pipe \<Rightarrow> 'a \<Rightarrow> 'a pipe" where
  "buffer_append p obj = p\<lparr>heap := (heap p)(buffer p := heap p (buffer p) @ [obj])\<rparr>"

text \<open>
  \<open>Queue.Queue(maxsize)\<close>: the queue is bounded when \<open>maxsize\<close> is positive and
  unbounded otherwise. \<open>put\<close> waits \<open>while self._qsize() == self.maxsize\<close> on a
  bounded queue, then appends the item and counts it in \<open>unfinished_tasks\<close>.
  \<open>task_done\<close> raises \<open>ValueError\<close> when the counter is zero and counts down
  otherwise (\<open>None\<close> is the exception).
\<close>

definition Queue_full :: "'a pipe \<Rightarrow> bool" where
  "Queue_full p \<longleftrightarrow> 0 < queue_size p \<and> int (length (queue p)) = queue_size p"

definition Queue_put :: "'a pipe \<Rightarrow> ref \<Rightarrow> 'a pipe" where
  "Queue_put p r = p\<lparr>queue := queue p @ [r], unfinished_tasks := Suc (unfinished_tasks p)\<rparr>"

definition Queue_task_done :: "'a pipe \<Rightarrow> 'a pipe option" where
  "Queue_task_done p =
     (if unfinished_tasks p = 0 then None
      else Some (p\<lparr>unfinished_tasks := unfinished_tasks p - 1\<rparr>))"

text \<open>
  \<open>Pipe.__init__\<close>: \<open>SimpleDataPipe.__init__\<close> creates one list, \<open>Pipe.__init__\<close>
  replaces it with another.
\<close>

definition Pipe_init :: "int \<Rightarrow> int \<Rightarrow> 'a pipe" where
  "Pipe_init bsize qsize =
     new_buffer (new_buffer
       \<lparr>buffer_size = bsize, queue_size = qsize, heap = (\<lambda>_. []), next_ref = 0, buffer = 0,
        queue = [], unfinished_tasks = 0, fieldlist = None, finished = False,
        stop_sending = False\<rparr>)"

definition send_buffer :: "'a pipe \<Rightarrow> 'a pipe outcome" where
  "send_buffer p =
     (if stop_sending p then Returned p
      else if Queue_full p then Suspended p
      else Returned (Queue_put p (buffer p)))"

definition Pipe_put :: "'a pipe \<Rightarrow> 'a \<Rightarrow> 'a pipe outcome" where
  "Pipe_put p obj =
     (if stop_sending p then Returned p
      else
        let p1 = buffer_append p obj in
        if buffer_size p1 \<le> int (length (heap p1 (buffer p1)))
        then and_then (send_buffer p1) (\<lambda>p2. Returned (new_buffer p2))
        else Returned p1)"

definition Pipe_flush :: "'a pipe \<Rightarrow> 'a pipe outcome" where
  "Pipe_flush p = and_then (send_buffer p) (\<lambda>p1. Returned (p1\<lparr>finished := True\<rparr>))"

text \<open>
  \<open>Pipe.stop\<close>: the flag is set, then \<open>get_nowait\<close> is called until it raises
  \<open>Queue.Empty\<close>. Each round removes the head of the queue and drops it.
\<close>

function stop_drain :: "'a pipe \<Rightarrow> 'a pipe" where
  "stop_drain p =
     (case queue p of
        [] \<Rightarrow> p
      | r # rs \<Rightarrow> stop_drain (p\<lparr>queue := rs\<rparr>))"
  by pat_completeness auto
termination
  by (relation "measure (\<lambda>p. length (queue p))") auto

definition Pipe_stop :: "'a pipe \<Rightarrow> 'a pipe" where
  "Pipe_stop p = stop_drain (p\<lparr>stop_sending := True\<rparr>)"

text \<open>
  \<open>Pipe.rows\<close>, iterated to its end by a consumer with no producer running: each round
  takes the next batch (suspending on an empty queue), yields its rows, calls
  \<open>task_done\<close>, and leaves the loop when \<open>finished\<close> is set and the queue is empty.
  The first component of the result is the sequence of rows yielded.
\<close>

function rows_loop :: "'a pipe \<Rightarrow> 'a list \<Rightarrow> ('a list \<times> 'a pipe) outcome" where
  "rows_loop p seen =
     (case queue p of
        [] \<Rightarrow> Suspended (seen, p)
      | r # rs \<Rightarrow>
          let p1 = p\<lparr>queue := rs\<rparr>; seen1 = seen @ heap p1 r in
          case Queue_task_done p1 of
            None \<Rightarrow> Raised ValueError (seen1, p1)
          | Some p2 \<Rightarrow>
              if finished p2 \<and> queue p2 = [] then Returned (seen1, p2)
              else rows_loop p2 seen1)"
  by pat_completeness auto
termination
  by (relation "measure (\<lambda>(p, seen). length (queue p))")
    (auto simp add: Queue_task_done_def split: if_splits)

definition Pipe_rows :: "'a pipe \<Rightarrow> ('a list \<times> 'a pipe) outcome" where
  "Pipe_rows p = rows_loop p []"



declare stop_drain.simps [simp del]
declare rows_loop.simps [simp del]

text \<open>A producer that makes a sequence of calls on the pipe, one after the other.\<close>

datatype 'a op = Put 'a | Flush

fun run_op :: "'a pipe \<Rightarrow> 'a op \<Rightarrow> 'a pipe outcome" where
  "run_op p (Put obj) = Pipe_put p obj"
| "run_op p Flush = Pipe_flush p"

fun run_ops :: "'a pipe \<Rightarrow> 'a op list \<Rightarrow> 'a pipe outcome" where
  "run_ops p [] = Returned p"
| "run_ops p (c # cs) = and_then (run_op p c) (\<lambda>p1. run_ops p1 cs)"

section \<open>SimpleDataPipe and the record view\<close>

text \<open>
  A Python value is \<open>None\<close> or a proper value, so a row is a list of \<open>'v option\<close> and a
  record (a \<open>dict\<close>) maps a field name to such a value.
\<close>

type_synonym 'v row = "'v option list"
type_synonym 'v pyrecord = "string \<rightharpoonup> 'v option"

record 'a simple_pipe =
  simple_buffer :: "'a list"
  simple_fields :: "string list option"
  simple_stop_sending :: bool

definition SimpleDataPipe_init :: "'a simple_pipe" where
  "SimpleDataPipe_init =
     \<lparr>simple_buffer = [], simple_fields = None, simple_stop_sending = False\<rparr>"

definition SimpleDataPipe_rows :: "'a simple_pipe \<Rightarrow> 'a list" where
  "SimpleDataPipe_rows s = simple_buffer s"

definition SimpleDataPipe_put :: "'a simple_pipe \<Rightarrow> 'a \<Rightarrow> 'a simple_pipe outcome" where
  "SimpleDataPipe_put s obj = Returned (s\<lparr>simple_buffer := simple_buffer s @ [obj]\<rparr>)"

definition SimpleDataPipe_stop :: "'a simple_pipe \<Rightarrow> 'a simple_pipe" where
  "SimpleDataPipe_stop s = s\<lparr>simple_stop_sending := True\<rparr>"

definition SimpleDataPipe_flush :: "'a simple_pipe \<Rightarrow> 'a simple_pipe outcome" where
  "SimpleDataPipe_flush s = Returned s"

definition SimpleDataPipe_empty :: "'a simple_pipe \<Rightarrow> 'a simple_pipe" where
  "SimpleDataPipe_empty s = s\<lparr>simple_buffer := []\<rparr>"

text \<open>
  Modelled from the spec: the field-list class is not among the sources, so the truth
  value of \<open>self.fields\<close> in \<open>if not self.fields\<close> is taken from the spec's data model
  (record-view conversion requires the field list to be set and non-empty). \<open>None\<close> is
  false in Python whatever the class does.
\<close>

definition fields_truthy :: "string list option \<Rightarrow> bool" where
  "fields_truthy fs = (case fs of None \<Rightarrow> False | Some names \<Rightarrow> names \<noteq> [])"

text \<open>
  \<open>dict(zip(fields, row))\<close>: \<open>zip\<close> stops at the shorter sequence, and a name that
  occurs twice keeps its last value.
\<close>

definition dict_zip :: "string list \<Rightarrow> 'v row \<Rightarrow> 'v pyrecord" where
  "dict_zip names r = map_of (rev (zip names r))"

text \<open>\<open>record.get(field)\<close>: the value stored under the key, \<open>None\<close> for a missing key.\<close>

definition dict_get :: "'v pyrecord \<Rightarrow> string \<Rightarrow> 'v option" where
  "dict_get record field = (case record field of None \<Rightarrow> None | Some v \<Rightarrow> v)"

text \<open>
  The loop of \<open>put_record\<close>: \<open>row = []\<close>, then one \<open>row.append(record.get(field))\<close>
  for each name.
\<close>

fun record_row :: "'v pyrecord \<Rightarrow> string list \<Rightarrow> 'v row \<Rightarrow> 'v row" where
  "record_row record [] acc = acc"
| "record_row record (field # names) acc = record_row record names (acc @ [dict_get record field])"

text \<open>
  \<open>put_record\<close> is defined in \<open>SimpleDataPipe\<close> and inherited by \<open>Pipe\<close>; its
  \<open>self.put\<close> is the \<open>put\<close> of the object's class. \<open>self.fields.names()\<close> on
  \<open>None\<close> raises \<open>AttributeError\<close>.
\<close>

definition SimpleDataPipe_put_record ::
  "'v row simple_pipe \<Rightarrow> 'v pyrecord \<Rightarrow> 'v row simple_pipe outcome" where
  "SimpleDataPipe_put_record s record =
     (case simple_fields s of
        None \<Rightarrow> Raised AttributeError s
      | Some names \<Rightarrow> SimpleDataPipe_put s (record_row record names []))"

definition Pipe_put_record :: "'v row pipe \<Rightarrow> 'v pyrecord \<Rightarrow> 'v row pipe outcome" where
  "Pipe_put_record p record =
     (case fieldlist p of
        None \<Rightarrow> Raised AttributeError p
      | Some names \<Rightarrow> Pipe_put p (record_row record names []))"

text \<open>
  \<open>records\<close>, iterated to its end: the first component of the result is the sequence of
  records yielded.
\<close>

definition SimpleDataPipe_records ::
  "'v row simple_pipe \<Rightarrow> ('v pyrecord list \<times> 'v row simple_pipe) outcome" where
  "SimpleDataPipe_records s =
     (if \<not> fields_truthy (simple_fields s) then Raised PyException ([], s)
      else
        case simple_fields s of
          None \<Rightarrow> Raised AttributeError ([], s)
        | Some names \<Rightarrow> Returned (map (dict_zip names) (SimpleDataPipe_rows s), s))"

definition Pipe_records :: "'v row pipe \<Rightarrow> ('v pyrecord list \<times> 'v row pipe) outcome" where
  "Pipe_records p =
     (if \<not> fields_truthy (fieldlist p) then Raised PyException ([], p)
      else
        case fieldlist p of
          None \<Rightarrow> Raised AttributeError ([], p)
        | Some names \<Rightarrow>
            (case Pipe_rows p of
               Returned (rs, p1) \<Rightarrow> Returned (map (dict_zip names) rs, p1)
             | Raised e (rs, p1) \<Rightarrow> Raised e (map (dict_zip names) rs, p1)
             | Suspended (rs, p1) \<Rightarrow> Suspended (map (dict_zip names) rs, p1)))"

section \<open>Pipe objects\<close>

text \<open>
  A node's inputs and outputs are references to pipe objects of either class; a method
  call on such an object runs the method of its class.
\<close>

datatype 'a pipe_obj = SimpleDataPipe "'a simple_pipe" | Pipe "'a pipe"

text \<open>
  Modelled from the spec: \<open>Node.put\<close> in nodes/base.py asks \<open>output.closed()\<close>, a
  method that neither pipe class of pipes/base.py defines. The spec has it query the
  pipe's closed-for-write state, which is the flag \<open>stop_sending\<close> that the copy of
  \<open>Node.put\<close> in pipes/base.py reads.
\<close>

fun closed :: "'a pipe_obj \<Rightarrow> bool" where
  "closed (SimpleDataPipe s) = simple_stop_sending s"
| "closed (Pipe p) = stop_sending p"

fun obj_stop_sending :: "'a pipe_obj \<Rightarrow> bool" where
  "obj_stop_sending (SimpleDataPipe s) = simple_stop_sending s"
| "obj_stop_sending (Pipe p) = stop_sending p"

fun obj_fields :: "'a pipe_obj \<Rightarrow> string list option" where
  "obj_fields (SimpleDataPipe s) = simple_fields s"
| "obj_fields (Pipe p) = fieldlist p"

fun obj_put :: "'a pipe_obj \<Rightarrow> 'a \<Rightarrow> 'a pipe_obj outcome" where
  "obj_put (SimpleDataPipe s) obj = map_outcome SimpleDataPipe (SimpleDataPipe_put s obj)"
| "obj_put (Pipe p) obj = map_outcome Pipe (Pipe_put p obj)"

fun obj_put_record :: "'v row pipe_obj \<Rightarrow> 'v pyrecord \<Rightarrow> 'v row pipe_obj outcome" where
  "obj_put_record (SimpleDataPipe s) record =
     map_outcome SimpleDataPipe (SimpleDataPipe_put_record s record)"
| "obj_put_record (Pipe p) record = map_outcome Pipe (Pipe_put_record p record)"

section \<open>Node (src/brewery/nodes/base.py and its copy in src/brewery/pipes/base.py)\<close>

text \<open>
  A node holds references to its pipes; the pipe objects live in a store shared by the
  nodes of the stream. \<open>node_class\<close> is the class of the object, which selects the
  method a call runs.
\<close>

datatype node_class = NodeClass | SourceNodeClass | TargetNodeClass

record node =
  node_class :: node_class
  inputs :: "ref list"
  outputs :: "ref list"
  active_outputs :: "ref list"
  description :: "string option"

type_synonym 'a store = "ref \<Rightarrow> 'a pipe_obj"

definition Node_init :: "node_class \<Rightarrow> node" where
  "Node_init c =
     \<lparr>node_class = c, inputs = [], outputs = [], active_outputs = [], description = None\<rparr>"

definition Node_add_input :: "node \<Rightarrow> ref \<Rightarrow> node outcome" where
  "Node_add_input n pipe =
     (if pipe \<notin> set (inputs n) then Returned (n\<lparr>inputs := inputs n @ [pipe]\<rparr>)
      else Raised PyException n)"

definition Node_add_output :: "node \<Rightarrow> ref \<Rightarrow> node outcome" where
  "Node_add_output n pipe =
     (if pipe \<notin> set (outputs n) then Returned (n\<lparr>outputs := outputs n @ [pipe]\<rparr>)
      else Raised PyException n)"

definition SourceNode_add_input :: "node \<Rightarrow> ref \<Rightarrow> node outcome" where
  "SourceNode_add_input n pipe = Raised PyException n"

definition TargetNode_add_output :: "node \<Rightarrow> ref \<Rightarrow> node outcome" where
  "TargetNode_add_output n pipe = Raised RuntimeError n"

text \<open>The property \<open>input\<close>: the single input, an exception otherwise.\<close>

definition Node_input :: "node \<Rightarrow> error + ref" where
  "Node_input n = (case inputs n of [pipe] \<Rightarrow> Inr pipe | _ \<Rightarrow> Inl PyException)"

definition Node_output_fields :: "node \<Rightarrow> 'a store \<Rightarrow> error + string list option" where
  "Node_output_fields n st =
     (if length (inputs n) \<noteq> 1 then Inl ValueError
      else
        case Node_input n of
          Inl e \<Rightarrow> Inl e
        | Inr pipe \<Rightarrow>
            if \<not> fields_truthy (obj_fields (st pipe)) then Inl ValueError
            else Inr (obj_fields (st pipe)))"

definition SourceNode_output_fields :: "node \<Rightarrow> 'a store \<Rightarrow> error + string list option" where
  "SourceNode_output_fields n st = Inl NotImplementedError"

definition TargetNode_output_fields :: "node \<Rightarrow> 'a store \<Rightarrow> error + string list option" where
  "TargetNode_output_fields n st = Inl RuntimeError"

text \<open>Method calls on a node object: the class of the object selects the method.\<close>

definition add_input :: "node \<Rightarrow> ref \<Rightarrow> node outcome" where
  "add_input n pipe =
     (case node_class n of
        SourceNodeClass \<Rightarrow> SourceNode_add_input n pipe
      | _ \<Rightarrow> Node_add_input n pipe)"

definition add_output :: "node \<Rightarrow> ref \<Rightarrow> node outcome" where
  "add_output n pipe =
     (case node_class n of
        TargetNodeClass \<Rightarrow> TargetNode_add_output n pipe
      | _ \<Rightarrow> Node_add_output n pipe)"

definition output_fields :: "node \<Rightarrow> 'a store \<Rightarrow> error + string list option" where
  "output_fields n st =
     (case node_class n of
        NodeClass \<Rightarrow> Node_output_fields n st
      | SourceNodeClass \<Rightarrow> SourceNode_output_fields n st
      | TargetNodeClass \<Rightarrow> TargetNode_output_fields n st)"

text \<open>
  \<open>Node.put\<close>: the loop over \<open>self.outputs\<close> with the counter \<open>active_outputs\<close>,
  then the test of the counter. \<open>is_closed\<close> is the test the loop makes on an output:
  \<open>output.closed()\<close> in nodes/base.py, \<open>output.stop_sending\<close> in pipes/base.py.
\<close>

fun put_loop ::
  "('a pipe_obj \<Rightarrow> bool) \<Rightarrow> 'a store \<Rightarrow> ref list \<Rightarrow> 'a \<Rightarrow> nat \<Rightarrow> ('a store \<times> nat) outcome" where
  "put_loop is_closed st [] obj k = Returned (st, k)"
| "put_loop is_closed st (r # rs) obj k =
     (if \<not> is_closed (st r) then
        (case obj_put (st r) obj of
           Returned out \<Rightarrow> put_loop is_closed (st(r := out)) rs obj (k + 1)
         | Raised e out \<Rightarrow> Raised e (st(r := out), k)
         | Suspended out \<Rightarrow> Suspended (st(r := out), k))
      else put_loop is_closed st rs obj k)"

definition put_with :: "('a pipe_obj \<Rightarrow> bool) \<Rightarrow> node \<Rightarrow> 'a store \<Rightarrow> 'a \<Rightarrow> 'a store outcome" where
  "put_with is_closed n st obj =
     (case put_loop is_closed st (outputs n) obj 0 of
        Returned (st1, k) \<Rightarrow> if k = 0 then Raised NodeFinished st1 else Returned st1
      | Raised e (st1, k) \<Rightarrow> Raised e st1
      | Suspended (st1, k) \<Rightarrow> Suspended st1)"

definition Node_put :: "node \<Rightarrow> 'a store \<Rightarrow> 'a \<Rightarrow> 'a store outcome" where
  "Node_put = put_with closed"

definition Node_put_pipes_base :: "node \<Rightarrow> 'a store \<Rightarrow> 'a \<Rightarrow> 'a store outcome" where
  "Node_put_pipes_base = put_with obj_stop_sending"

text \<open>\<open>Node.put_record\<close>: the same text in both files.\<close>

fun put_record_loop :: "'v row store \<Rightarrow> ref list \<Rightarrow> 'v pyrecord \<Rightarrow> 'v row store outcome" where
  "put_record_loop st [] record = Returned st"
| "put_record_loop st (r # rs) record =
     (case obj_put_record (st r) record of
        Returned out \<Rightarrow> put_record_loop (st(r := out)) rs record
      | Raised e out \<Rightarrow> Raised e (st(r := out))
      | Suspended out \<Rightarrow> Suspended (st(r := out)))"

definition Node_put_record :: "node \<Rightarrow> 'v row store \<Rightarrow> 'v pyrecord \<Rightarrow> 'v row store outcome" where
  "Node_put_record n st record = put_record_loop st (outputs n) record"

section \<open>Producer and consumer as two threads\<close>

text \<open>
  A pipe is shared by the thread of its producer and the thread of its consumer. Each
  thread is a small machine over the shared pipe state; one step is one access to the
  shared state (a flag, a list object, the queue), in the order of the statements of
  \<open>put\<close>, \<open>_send_buffer\<close>, \<open>flush\<close> and \<open>rows\<close>. A step that would block
  (\<open>Queue.put\<close> on a full queue, \<open>Queue.get\<close> on an empty one) is not enabled.

  The producer is between two calls (\<open>Calling\<close>, with the calls still to make) or
  inside \<open>put\<close> or \<open>flush\<close>:
  \<^item> \<open>Put_append\<close>: \<open>put\<close> has read \<open>stop_sending\<close> as false and is about to append
    and test the length;
  \<^item> \<open>Put_send\<close>, \<open>Flush_send\<close>: at the test of \<open>stop_sending\<close> in \<open>_send_buffer\<close>;
  \<^item> \<open>Put_enqueue\<close>, \<open>Flush_enqueue\<close>: at \<open>self.queue.put(self.buffer)\<close>;
  \<^item> \<open>Put_reset\<close>: at \<open>self.buffer = []\<close>;
  \<^item> \<open>Flush_finish\<close>: at \<open>self.finished = True\<close>.
\<close>

datatype 'a producer =
    Calling "'a op list"
  | Put_append 'a "'a op list"
  | Put_send "'a op list"
  | Put_enqueue "'a op list"
  | Put_reset "'a op list"
  | Flush_send "'a op list"
  | Flush_enqueue "'a op list"
  | Flush_finish "'a op list"

text \<open>
  The consumer iterates \<open>rows()\<close>: it is at \<open>self.queue.get()\<close> (\<open>Get\<close>), in the
  \<open>for\<close> loop over the batch it took, having yielded the first \<open>i\<close> items (\<open>Iter\<close>;
  a Python list iterator reads the list by index, so it sees items appended meanwhile),
  at the test of \<open>self.finished\<close> (\<open>Check\<close>), at the test of \<open>self.queue.empty()\<close>
  (\<open>Check_empty\<close>), or the generator has ended (\<open>Ended\<close>). \<open>Task_done\<close> is the
  call of \<open>self.queue.task_done()\<close> after the loop, \<open>Failed\<close> the generator left by
  the \<open>ValueError\<close> of that call.
\<close>

datatype consumer = Get | Iter ref nat | Task_done | Check | Check_empty | Ended | Failed

fun producer_step :: "'a producer \<Rightarrow> 'a pipe \<Rightarrow> ('a producer \<times> 'a pipe) option" where
  "producer_step (Calling []) p = None"
| "producer_step (Calling (Put obj # ops)) p =
     Some (if stop_sending p then Calling ops else Put_append obj ops, p)"
| "producer_step (Calling (Flush # ops)) p = Some (Flush_send ops, p)"
| "producer_step (Put_append obj ops) p =
     (let p1 = buffer_append p obj in
      Some (if buffer_size p1 \<le> int (length (heap p1 (buffer p1))) then Put_send ops
            else Calling ops, p1))"
| "producer_step (Put_send ops) p =
     Some (if stop_sending p then Put_reset ops else Put_enqueue ops, p)"
| "producer_step (Put_enqueue ops) p =
     (if Queue_full p then None else Some (Put_reset ops, Queue_put p (buffer p)))"
| "producer_step (Put_reset ops) p = Some (Calling ops, new_buffer p)"
| "producer_step (Flush_send ops) p =
     Some (if stop_sending p then Flush_finish ops else Flush_enqueue ops, p)"
| "producer_step (Flush_enqueue ops) p =
     (if Queue_full p then None else Some (Flush_finish ops, Queue_put p (buffer p)))"
| "producer_step (Flush_finish ops) p = Some (Calling ops, p\<lparr>finished := True\<rparr>)"

text \<open>The third component of a consumer step is what the step yields to the consumer.\<close>

fun consumer_step :: "consumer \<Rightarrow> 'a pipe \<Rightarrow> (consumer \<times> 'a pipe \<times> 'a list) option" where
  "consumer_step Get p =
     (case queue p of [] \<Rightarrow> None | r # rs \<Rightarrow> Some (Iter r 0, p\<lparr>queue := rs\<rparr>, []))"
| "consumer_step (Iter r i) p =
     (if i < length (heap p r) then Some (Iter r (Suc i), p, [heap p r ! i])
      else Some (Task_done, p, []))"
| "consumer_step Task_done p =
     (case Queue_task_done p of
        None \<Rightarrow> Some (Failed, p, [])
      | Some p1 \<Rightarrow> Some (Check, p1, []))"
| "consumer_step Check p = Some (if finished p then Check_empty else Get, p, [])"
| "consumer_step Check_empty p = Some (if queue p = [] then Ended else Get, p, [])"
| "consumer_step Ended p = None"
| "consumer_step Failed p = None"

record 'a config =
  shared :: "'a pipe"
  producer :: "'a producer"
  consumer :: consumer
  observed :: "'a list"

text \<open>Any interleaving of the two threads: at each step one of them moves.\<close>

inductive step :: "'a config \<Rightarrow> 'a config \<Rightarrow> bool" where
  producer_moves:
    "producer_step (producer c) (shared c) = Some (pr, p) \<Longrightarrow>
     step c (c\<lparr>shared := p, producer := pr\<rparr>)"
| consumer_moves:
    "consumer_step (consumer c) (shared c) = Some (cn, p, ys) \<Longrightarrow>
     step c (c\<lparr>shared := p, consumer := cn, observed := observed c @ ys\<rparr>)"

text \<open>No thread can move: each has returned or waits on the queue.\<close>

definition terminal :: "'a config \<Rightarrow> bool" where
  "terminal c \<longleftrightarrow>
     producer_step (producer c) (shared c) = None \<and>
     consumer_step (consumer c) (shared c) = None"

text \<open>
  A new pipe whose producer puts \<open>rows\<close>, one call each, and then flushes once, and whose
  consumer iterates \<open>rows()\<close>.
\<close>

definition start :: "int \<Rightarrow> int \<Rightarrow> 'a list \<Rightarrow> 'a config" where
  "start bsize qsize rows =
     \<lparr>shared = Pipe_init bsize qsize, producer = Calling (map Put rows @ [Flush]),
      consumer = Get, observed = []\<rparr>"

abbreviation cfg :: "'a pipe \<Rightarrow> 'a producer \<Rightarrow> consumer \<Rightarrow> 'a list \<Rightarrow> 'a config" where
  "cfg p pr cn obs \<equiv> \<lparr>shared = p, producer = pr, consumer = cn, observed = obs\<rparr>"

text \<open>
  One interleaving, given as a schedule: \<open>True\<close> lets the producer move, \<open>False\<close> the
  consumer. The result is \<open>None\<close> when the scheduled thread cannot move.
\<close>

fun run_schedule :: "bool list \<Rightarrow> 'a config \<Rightarrow> 'a config option" where
  "run_schedule [] c = Some c"
| "run_schedule (True # bs) c =
     (case producer_step (producer c) (shared c) of
        None \<Rightarrow> None
      | Some (pr, p) \<Rightarrow> run_schedule bs (c\<lparr>shared := p, producer := pr\<rparr>))"
| "run_schedule (False # bs) c =
     (case consumer_step (consumer c) (shared c) of
        None \<Rightarrow> None
      | Some (cn, p, ys) \<Rightarrow>
          run_schedule bs (c\<lparr>shared := p, consumer := cn, observed := observed c @ ys\<rparr>))"

subsection \<open>What holds along every run from \<open>start\<close>\<close>

text \<open>The rows of the \<open>put\<close> calls still to make, and the shape puts-then-one-flush.\<close>

fun put_args :: "'a op list \<Rightarrow> 'a list" where
  "put_args [] = []"
| "put_args (Put x # ops) = x # put_args ops"
| "put_args (Flush # ops) = put_args ops"

definition program :: "'a op list \<Rightarrow> bool" where
  "program ops \<longleftrightarrow> ops = map Put (put_args ops) @ [Flush]"

text \<open>
  The rows that have left the producer: those the consumer has seen, the rest of the batch
  it is iterating, and the batches in the queue.
\<close>

definition pending :: "consumer \<Rightarrow> 'a pipe \<Rightarrow> 'a list" where
  "pending cn p = (case cn of Iter r i \<Rightarrow> drop i (heap p r) | _ \<Rightarrow> [])"

definition sent :: "'a config \<Rightarrow> 'a list" where
  "sent c =
     observed c @ pending (consumer c) (shared c) @
     concat (map (heap (shared c)) (queue (shared c)))"

text \<open>The batches taken from the queue for which \<open>task_done\<close> is still to be called.\<close>

definition in_hand :: "consumer \<Rightarrow> nat" where
  "in_hand cn = (case cn of Iter r i \<Rightarrow> 1 | Task_done \<Rightarrow> 1 | _ \<Rightarrow> 0)"

text \<open>The list objects the queue and the consumer hold.\<close>

definition in_use :: "'a config \<Rightarrow> ref set" where
  "in_use c = set (queue (shared c)) \<union> (case consumer c of Iter r i \<Rightarrow> {r} | _ \<Rightarrow> {})"

definition delivered :: "'a list \<Rightarrow> 'a config \<Rightarrow> bool" where
  "delivered rows c \<longleftrightarrow>
     \<not> stop_sending (shared c) \<and>
     buffer (shared c) < next_ref (shared c) \<and>
     (\<forall>r \<in> in_use c. r < next_ref (shared c)) \<and>
     unfinished_tasks (shared c) = length (queue (shared c)) + in_hand (consumer c) \<and>
     consumer c \<noteq> Failed \<and>
     (consumer c = Ended \<longrightarrow> finished (shared c) \<and> queue (shared c) = []) \<and>
     (consumer c = Check_empty \<longrightarrow> finished (shared c)) \<and>
     (case producer c of
        Calling ops \<Rightarrow>
          if ops = [] then finished (shared c) \<and> sent c = rows
          else program ops \<and> \<not> finished (shared c) \<and> buffer (shared c) \<notin> in_use c \<and>
               sent c @ heap (shared c) (buffer (shared c)) @ put_args ops = rows
      | Put_append obj ops \<Rightarrow>
          program ops \<and> \<not> finished (shared c) \<and> buffer (shared c) \<notin> in_use c \<and>
          sent c @ heap (shared c) (buffer (shared c)) @ obj # put_args ops = rows
      | Put_send ops \<Rightarrow>
          program ops \<and> \<not> finished (shared c) \<and> buffer (shared c) \<notin> in_use c \<and>
          sent c @ heap (shared c) (buffer (shared c)) @ put_args ops = rows
      | Put_enqueue ops \<Rightarrow>
          program ops \<and> \<not> finished (shared c) \<and> buffer (shared c) \<notin> in_use c \<and>
          sent c @ heap (shared c) (buffer (shared c)) @ put_args ops = rows
      | Put_reset ops \<Rightarrow>
          program ops \<and> \<not> finished (shared c) \<and> sent c @ put_args ops = rows
      | Flush_send ops \<Rightarrow>
          ops = [] \<and> \<not> finished (shared c) \<and> buffer (shared c) \<notin> in_use c \<and>
          sent c @ heap (shared c) (buffer (shared c)) = rows
      | Flush_enqueue ops \<Rightarrow>
          ops = [] \<and> \<not> finished (shared c) \<and> buffer (shared c) \<notin> in_use c \<and>
          sent c @ heap (shared c) (buffer (shared c)) = rows
      | Flush_finish ops \<Rightarrow>
          ops = [] \<and> \<not> finished (shared c) \<and> sent c = rows)"

text \<open>
  A pipe in use: neither flushed nor stopped, its queue within its bound and counted in
  \<open>unfinished_tasks\<close>.
\<close>

definition running :: "'a pipe \<Rightarrow> bool" where
  "running p \<longleftrightarrow>
     \<not> finished p \<and> \<not> stop_sending p \<and> length (queue p) \<le> unfinished_tasks p \<and>
     (0 < queue_size p \<longrightarrow> int (length (queue p)) \<le> queue_size p)"

section \<open>Lemmas\<close>

subsection \<open>Sequential calls\<close>

lemma run_ops_append:
  "run_ops p (xs @ ys) = and_then (run_ops p xs) (\<lambda>p1. run_ops p1 ys)"
proof (induction xs arbitrary: p)
  case Nil
  show ?case by simp
next
  case (Cons c cs)
  show ?case
    by (cases "run_op p c") (simp_all add: Cons.IH)
qed








lemma record_row_acc: "record_row record names acc = acc @ map (dict_get record) names"
  by (induction names arbitrary: acc) auto

subsection \<open>Two threads: the invariant and a run to the end\<close>

lemma program_simps [simp]:
  "\<not> program []"
  "program (Put x # ops) = program ops"
  "program (Flush # ops) = (ops = [])"
proof -
  show "\<not> program []" by (simp add: program_def)
  show "program (Put x # ops) = program ops" by (simp add: program_def)
  show "program (Flush # ops) = (ops = [])"
  proof
    assume "program (Flush # ops)"
    then have e: "Flush # ops = map Put (put_args ops) @ [Flush]" by (simp add: program_def)
    show "ops = []"
    proof (cases "put_args ops")
      case Nil
      with e show ?thesis by simp
    next
      case (Cons a as)
      with e show ?thesis by simp
    qed
  next
    assume "ops = []"
    then show "program (Flush # ops)" by (simp add: program_def)
  qed
qed

lemma program_start [simp]: "program (map Put rows @ [Flush])"
  by (induction rows) (simp_all add: program_def)

lemma put_args_start [simp]: "put_args (map Put rows @ [Flush]) = rows"
  by (induction rows) simp_all

lemma inv_start: "delivered rows (start bsize qsize rows)"
  by (simp add: delivered_def start_def Pipe_init_def new_buffer_def in_use_def sent_def pending_def
      in_hand_def)

lemma concat_heap_upd:
  "b \<notin> set q \<Longrightarrow> concat (map (h(b := xs)) q) = concat (map h q)"
  by (induction q) auto

lemma concat_heap_fresh:
  "\<forall>r \<in> set q. r < (n::nat) \<Longrightarrow> concat (map (h(n := xs)) q) = concat (map h q)"
  by (rule concat_heap_upd) auto

lemma inv_producer:
  assumes "delivered rows c" and "producer_step (producer c) (shared c) = Some (pr, p)"
  shows "delivered rows (c\<lparr>shared := p, producer := pr\<rparr>)"
proof (cases "producer c")
  case (Calling ops)
  show ?thesis
  proof (cases ops)
    case Nil
    with Calling assms show ?thesis by simp
  next
    case (Cons a ops')
    with Calling assms show ?thesis
      by (cases a) (auto simp add: delivered_def sent_def in_use_def pending_def)
  qed
next
  case (Put_append obj ops)
  with assms show ?thesis
    by (auto simp add: delivered_def sent_def in_use_def pending_def Let_def buffer_append_def
        concat_heap_upd split: consumer.splits if_splits)
next
  case (Put_send ops)
  with assms show ?thesis
    by (auto simp add: delivered_def sent_def in_use_def pending_def split: if_splits)
next
  case (Put_enqueue ops)
  with assms show ?thesis
    by (auto simp add: delivered_def sent_def in_use_def pending_def Queue_put_def
        split: consumer.splits if_splits)
next
  case (Put_reset ops)
  with assms show ?thesis
    by (cases "consumer c")
      (auto simp add: delivered_def sent_def in_use_def pending_def new_buffer_def concat_heap_fresh
        less_Suc_eq)
next
  case (Flush_send ops)
  with assms show ?thesis
    by (auto simp add: delivered_def sent_def in_use_def pending_def split: if_splits)
next
  case (Flush_enqueue ops)
  with assms show ?thesis
    by (auto simp add: delivered_def sent_def in_use_def pending_def Queue_put_def
        split: consumer.splits if_splits)
next
  case (Flush_finish ops)
  with assms show ?thesis
    by (auto simp add: delivered_def sent_def in_use_def pending_def split: consumer.splits if_splits)
qed

lemma inv_consumer:
  assumes "delivered rows c" and "consumer_step (consumer c) (shared c) = Some (cn, p, ys)"
  shows "delivered rows (c\<lparr>shared := p, consumer := cn, observed := observed c @ ys\<rparr>)"
proof (cases "consumer c")
  case Get
  with assms show ?thesis
    by (cases "producer c")
      (auto simp add: delivered_def sent_def in_use_def pending_def in_hand_def
        split: list.splits if_splits)
next
  case (Iter r i)
  with assms show ?thesis
    by (cases "producer c")
      (auto simp add: delivered_def sent_def in_use_def pending_def in_hand_def Cons_nth_drop_Suc
        split: list.splits if_splits)
next
  case Task_done
  with assms show ?thesis
    by (cases "producer c")
      (auto simp add: delivered_def sent_def in_use_def pending_def in_hand_def Queue_task_done_def
        split: list.splits if_splits)
next
  case Check
  with assms show ?thesis
    by (cases "producer c")
      (auto simp add: delivered_def sent_def in_use_def pending_def in_hand_def
        split: list.splits if_splits)
next
  case Check_empty
  with assms show ?thesis
    by (cases "producer c")
      (auto simp add: delivered_def sent_def in_use_def pending_def in_hand_def
        split: list.splits if_splits)
next
  case Ended
  with assms show ?thesis by simp
next
  case Failed
  with assms show ?thesis by simp
qed

lemma inv_step: "step c c' \<Longrightarrow> delivered rows c \<Longrightarrow> delivered rows c'"
  by (induction rule: step.induct) (auto intro: inv_producer inv_consumer)

lemma inv_steps: "step\<^sup>*\<^sup>* c c' \<Longrightarrow> delivered rows c \<Longrightarrow> delivered rows c'"
  by (induction rule: rtranclp_induct) (auto intro: inv_step)

lemma inv_prefix: "delivered rows c \<Longrightarrow> \<exists>rest. rows = observed c @ rest"
  by (cases "producer c") (auto simp add: delivered_def sent_def split: if_splits)

lemma inv_Ended: "delivered rows c \<Longrightarrow> consumer c = Ended \<Longrightarrow> observed c = rows"
  by (cases "producer c") (auto simp add: delivered_def sent_def pending_def split: if_splits)

lemma inv_terminal: "delivered rows c \<Longrightarrow> terminal c \<Longrightarrow> observed c = rows"
proof -
  assume i: "delivered rows c" and t: "terminal c"
  have nf: "consumer c \<noteq> Failed" using i by (simp add: delivered_def)
  have cn: "consumer c = Ended \<or> (consumer c = Get \<and> queue (shared c) = [])"
    using t nf
    by (cases "consumer c") (auto simp add: terminal_def split: list.splits option.splits if_splits)
  have q: "queue (shared c) = []"
    using cn i by (auto simp add: delivered_def)
  have "producer c = Calling []"
  proof (cases "producer c")
    case (Calling ops)
    show ?thesis
    proof (cases ops)
      case Nil
      with Calling show ?thesis by simp
    next
      case (Cons a ops1)
      with Calling t show ?thesis by (cases a) (simp_all add: terminal_def)
    qed
  qed (use t q in \<open>auto simp add: terminal_def Queue_full_def Let_def split: if_splits\<close>)
  then show ?thesis
    using i cn q by (auto simp add: delivered_def sent_def pending_def)
qed

lemma producer_stepsI:
  "producer_step pr p = Some (pr1, p1) \<Longrightarrow> step\<^sup>*\<^sup>* (cfg p pr cn obs) (cfg p1 pr1 cn obs)"
  using producer_moves [of "cfg p pr cn obs" pr1 p1] by auto

lemma consumer_stepsI:
  "consumer_step cn p = Some (cn1, p1, ys) \<Longrightarrow>
   step\<^sup>*\<^sup>* (cfg p pr cn obs) (cfg p1 pr cn1 (obs @ ys))"
  using consumer_moves [of "cfg p pr cn obs" cn1 p1 ys] by auto

lemma consumer_silentI:
  "consumer_step cn p = Some (cn1, p1, []) \<Longrightarrow> step\<^sup>*\<^sup>* (cfg p pr cn obs) (cfg p1 pr cn1 obs)"
  using consumer_stepsI [of cn p cn1 p1 "[]" pr obs] by simp

lemma iterate_batch:
  "step\<^sup>*\<^sup>* (cfg p pr (Iter r i) obs) (cfg p pr Task_done (obs @ drop i (heap p r)))"
proof (induction "length (heap p r) - i" arbitrary: i obs)
  case 0
  then have "step\<^sup>*\<^sup>* (cfg p pr (Iter r i) obs) (cfg p pr Task_done obs)"
    by (intro consumer_silentI) simp
  with 0 show ?case by simp
next
  case (Suc n)
  then have lt: "i < length (heap p r)" by simp
  have "step\<^sup>*\<^sup>* (cfg p pr (Iter r i) obs) (cfg p pr (Iter r (Suc i)) (obs @ [heap p r ! i]))"
    using lt by (intro consumer_stepsI) simp
  also have "step\<^sup>*\<^sup>* (cfg p pr (Iter r (Suc i)) (obs @ [heap p r ! i]))
        (cfg p pr Task_done ((obs @ [heap p r ! i]) @ drop (Suc i) (heap p r)))"
    using Suc(2) by (intro Suc(1)) simp
  finally show ?case using lt by (simp add: Cons_nth_drop_Suc)
qed

text \<open>The pipe after the consumer took the head of the queue and called \<open>task_done\<close>.\<close>

lemma take_batch:
  assumes "queue p = r # rs" and "0 < unfinished_tasks p"
  shows "step\<^sup>*\<^sup>* (cfg p pr Get obs)
    (cfg (p\<lparr>queue := rs, unfinished_tasks := unfinished_tasks p - 1\<rparr>) pr Check (obs @ heap p r))"
proof -
  let ?p = "p\<lparr>queue := rs\<rparr>"
  have "step\<^sup>*\<^sup>* (cfg p pr Get obs) (cfg ?p pr (Iter r 0) obs)"
    using assms by (intro consumer_silentI) simp
  also have "step\<^sup>*\<^sup>* (cfg ?p pr (Iter r 0) obs) (cfg ?p pr Task_done (obs @ heap p r))"
    using iterate_batch [of ?p pr r 0 obs] by simp
  also have "step\<^sup>*\<^sup>* (cfg ?p pr Task_done (obs @ heap p r))
      (cfg (p\<lparr>queue := rs, unfinished_tasks := unfinished_tasks p - 1\<rparr>) pr Check (obs @ heap p r))"
    using assms by (intro consumer_silentI) (simp add: Queue_task_done_def)
  finally show ?thesis .
qed

lemma take_batch_running:
  assumes "queue p = r # rs" and "0 < unfinished_tasks p" and "\<not> finished p"
  shows "step\<^sup>*\<^sup>* (cfg p pr Get obs)
    (cfg (p\<lparr>queue := rs, unfinished_tasks := unfinished_tasks p - 1\<rparr>) pr Get (obs @ heap p r))"
proof -
  note take_batch [OF assms(1,2), of pr obs]
  also have "step\<^sup>*\<^sup>*
      (cfg (p\<lparr>queue := rs, unfinished_tasks := unfinished_tasks p - 1\<rparr>) pr Check (obs @ heap p r))
      (cfg (p\<lparr>queue := rs, unfinished_tasks := unfinished_tasks p - 1\<rparr>) pr Get (obs @ heap p r))"
    using assms(3) by (intro consumer_silentI) simp
  finally show ?thesis .
qed

lemma drain_finished:
  "finished p \<Longrightarrow> queue p = q \<Longrightarrow> q \<noteq> [] \<Longrightarrow> length q \<le> unfinished_tasks p \<Longrightarrow>
   \<exists>c. step\<^sup>*\<^sup>* (cfg p pr Get obs) c \<and> consumer c = Ended"
proof (induction q arbitrary: p obs)
  case Nil
  then show ?case by simp
next
  case (Cons r rs)
  let ?p = "p\<lparr>queue := rs, unfinished_tasks := unfinished_tasks p - 1\<rparr>"
  let ?obs = "obs @ heap p r"
  let ?cn = "if rs = [] then Ended else Get"
  have "step\<^sup>*\<^sup>* (cfg p pr Get obs) (cfg ?p pr Check ?obs)"
    using Cons.prems by (intro take_batch) simp_all
  also have "step\<^sup>*\<^sup>* (cfg ?p pr Check ?obs) (cfg ?p pr Check_empty ?obs)"
    using Cons.prems by (intro consumer_silentI) simp
  also have "step\<^sup>*\<^sup>* (cfg ?p pr Check_empty ?obs) (cfg ?p pr ?cn ?obs)"
    by (intro consumer_silentI) simp
  finally have abc: "step\<^sup>*\<^sup>* (cfg p pr Get obs) (cfg ?p pr ?cn ?obs)" .
  show ?case
  proof (cases "rs = []")
    case True
    with abc show ?thesis by (intro exI [of _ "cfg ?p pr Ended ?obs"]) simp
  next
    case False
    have "\<exists>c. step\<^sup>*\<^sup>* (cfg ?p pr Get ?obs) c \<and> consumer c = Ended"
      using Cons.prems False by (intro Cons.IH) simp_all
    then obtain c where "step\<^sup>*\<^sup>* (cfg ?p pr Get ?obs) c" and "consumer c = Ended" by blast
    with abc False show ?thesis by (intro exI [of _ c]) auto
  qed
qed

text \<open>
  A producer at \<open>self.queue.put(self.buffer)\<close> gets through: at once when the queue is
  not full, after the consumer has taken a batch when it is.
\<close>

lemma enqueue_with_consumer:
  assumes e: "\<And>q. producer_step pr q =
                 (if Queue_full q then None else Some (pr1, Queue_put q (buffer q)))"
    and r: "running p"
  shows "\<exists>p1 obs1. step\<^sup>*\<^sup>* (cfg p pr Get obs) (cfg p1 pr1 Get obs1) \<and> running p1 \<and>
           queue p1 \<noteq> []"
proof (cases "Queue_full p")
  case False
  then have "step\<^sup>*\<^sup>* (cfg p pr Get obs) (cfg (Queue_put p (buffer p)) pr1 Get obs)"
    by (intro producer_stepsI) (simp add: e)
  moreover have "running (Queue_put p (buffer p))"
    using r False by (auto simp add: running_def Queue_put_def Queue_full_def)
  ultimately show ?thesis
    by (intro exI [of _ "Queue_put p (buffer p)"] exI [of _ obs]) (simp add: Queue_put_def)
next
  case True
  then obtain r0 rs where q: "queue p = r0 # rs"
    by (cases "queue p") (auto simp add: Queue_full_def)
  let ?p = "p\<lparr>queue := rs, unfinished_tasks := unfinished_tasks p - 1\<rparr>"
  have nf: "\<not> finished p" and u: "0 < unfinished_tasks p"
    using r q by (simp_all add: running_def)
  have "\<not> Queue_full ?p"
    using True q by (auto simp add: Queue_full_def)
  have "step\<^sup>*\<^sup>* (cfg p pr Get obs) (cfg ?p pr Get (obs @ heap p r0))"
    by (rule take_batch_running [OF q u nf])
  also have "step\<^sup>*\<^sup>* (cfg ?p pr Get (obs @ heap p r0))
      (cfg (Queue_put ?p (buffer ?p)) pr1 Get (obs @ heap p r0))"
    using \<open>\<not> Queue_full ?p\<close> by (intro producer_stepsI) (simp add: e)
  finally have "step\<^sup>*\<^sup>* (cfg p pr Get obs)
      (cfg (Queue_put ?p (buffer ?p)) pr1 Get (obs @ heap p r0))" .
  moreover have "running (Queue_put ?p (buffer ?p))"
    using r q by (auto simp add: running_def Queue_put_def)
  ultimately show ?thesis
    by (intro exI [of _ "Queue_put ?p (buffer ?p)"] exI [of _ "obs @ heap p r0"])
      (simp add: Queue_put_def)
qed

lemma running_program_ends:
  "running p \<Longrightarrow>
   \<exists>c. step\<^sup>*\<^sup>* (cfg p (Calling (map Put rest @ [Flush])) Get obs) c \<and> consumer c = Ended"
proof (induction rest arbitrary: p obs)
  case Nil
  have ns: "\<not> stop_sending p" using Nil by (simp add: running_def)
  obtain p1 obs1 where
    s3: "step\<^sup>*\<^sup>* (cfg p (Flush_enqueue []) Get obs) (cfg p1 (Flush_finish []) Get obs1)"
    and r1: "running p1" and q1: "queue p1 \<noteq> []"
    using enqueue_with_consumer [of "Flush_enqueue []" "Flush_finish []" p obs] Nil
    by auto
  obtain c where
    s5: "step\<^sup>*\<^sup>* (cfg (p1\<lparr>finished := True\<rparr>) (Calling []) Get obs1) c"
    and e: "consumer c = Ended"
    using drain_finished [of "p1\<lparr>finished := True\<rparr>" "queue p1" "Calling []" obs1] q1 r1
    by (auto simp add: running_def)
  have "step\<^sup>*\<^sup>* (cfg p (Calling [Flush]) Get obs) (cfg p (Flush_send []) Get obs)"
    by (intro producer_stepsI) simp
  also have "step\<^sup>*\<^sup>* (cfg p (Flush_send []) Get obs) (cfg p (Flush_enqueue []) Get obs)"
    using ns by (intro producer_stepsI) simp
  also note s3
  also have "step\<^sup>*\<^sup>* (cfg p1 (Flush_finish []) Get obs1)
      (cfg (p1\<lparr>finished := True\<rparr>) (Calling []) Get obs1)"
    by (intro producer_stepsI) simp
  also note s5
  finally have "step\<^sup>*\<^sup>* (cfg p (Calling [Flush]) Get obs) c" .
  with e show ?case by auto
next
  case (Cons x rest)
  let ?ops = "map Put rest @ [Flush]"
  let ?p1 = "buffer_append p x"
  have ns: "\<not> stop_sending p" using Cons.prems by (simp add: running_def)
  have r1: "running ?p1" using Cons.prems by (simp add: running_def buffer_append_def)
  have s1: "step\<^sup>*\<^sup>* (cfg p (Calling (Put x # ?ops)) Get obs) (cfg p (Put_append x ?ops) Get obs)"
    using ns by (intro producer_stepsI) simp
  show ?case
  proof (cases "buffer_size ?p1 \<le> int (length (heap ?p1 (buffer ?p1)))")
    case False
    obtain c where s3: "step\<^sup>*\<^sup>* (cfg ?p1 (Calling ?ops) Get obs) c" and e: "consumer c = Ended"
      using Cons.IH [OF r1, of obs] by auto
    note s1
    also have "step\<^sup>*\<^sup>* (cfg p (Put_append x ?ops) Get obs) (cfg ?p1 (Calling ?ops) Get obs)"
      using False by (intro producer_stepsI) (simp add: Let_def)
    also note s3
    finally have "step\<^sup>*\<^sup>* (cfg p (Calling (Put x # ?ops)) Get obs) c" .
    with e show ?thesis by auto
  next
    case True
    obtain p2 obs2 where
      s4: "step\<^sup>*\<^sup>* (cfg ?p1 (Put_enqueue ?ops) Get obs) (cfg p2 (Put_reset ?ops) Get obs2)"
      and r2: "running p2"
      using enqueue_with_consumer [of "Put_enqueue ?ops" "Put_reset ?ops" ?p1 obs] r1
      by auto
    have r3: "running (new_buffer p2)" using r2 by (simp add: running_def new_buffer_def)
    obtain c where s6: "step\<^sup>*\<^sup>* (cfg (new_buffer p2) (Calling ?ops) Get obs2) c"
      and e: "consumer c = Ended"
      using Cons.IH [OF r3, of obs2] by auto
    note s1
    also have "step\<^sup>*\<^sup>* (cfg p (Put_append x ?ops) Get obs) (cfg ?p1 (Put_send ?ops) Get obs)"
      using True by (intro producer_stepsI) (simp add: Let_def)
    also have "step\<^sup>*\<^sup>* (cfg ?p1 (Put_send ?ops) Get obs) (cfg ?p1 (Put_enqueue ?ops) Get obs)"
      using r1 by (intro producer_stepsI) (simp add: running_def)
    also note s4
    also have "step\<^sup>*\<^sup>* (cfg p2 (Put_reset ?ops) Get obs2)
        (cfg (new_buffer p2) (Calling ?ops) Get obs2)"
      by (intro producer_stepsI) simp
    also note s6
    finally have "step\<^sup>*\<^sup>* (cfg p (Calling (Put x # ?ops)) Get obs) c" .
    with e show ?thesis by auto
  qed
qed

lemma start_ends: "\<exists>c. step\<^sup>*\<^sup>* (start bsize qsize rows) c \<and> consumer c = Ended"
proof -
  have "running (Pipe_init bsize qsize :: 'a pipe)"
    by (simp add: running_def Pipe_init_def new_buffer_def)
  from running_program_ends [OF this, of rows "[]"] show ?thesis
    by (simp add: start_def)
qed

lemma run_schedule_steps: "run_schedule bs c = Some c1 \<Longrightarrow> step\<^sup>*\<^sup>* c c1"
proof (induction bs arbitrary: c)
  case Nil
  then show ?case by simp
next
  case (Cons b bs)
  show ?case
  proof (cases b)
    case True
    with Cons.prems obtain pr p where s: "producer_step (producer c) (shared c) = Some (pr, p)"
      and r: "run_schedule bs (c\<lparr>shared := p, producer := pr\<rparr>) = Some c1"
      by (auto split: option.splits)
    from producer_moves [OF s] Cons.IH [OF r] show ?thesis
      by (rule converse_rtranclp_into_rtranclp)
  next
    case False
    with Cons.prems obtain cn p ys where s: "consumer_step (consumer c) (shared c) = Some (cn, p, ys)"
      and r: "run_schedule bs (c\<lparr>shared := p, consumer := cn, observed := observed c @ ys\<rparr>) = Some c1"
      by (auto split: option.splits)
    from consumer_moves [OF s] Cons.IH [OF r] show ?thesis
      by (rule converse_rtranclp_into_rtranclp)
  qed
qed

subsection \<open>A call that returns is a run of its thread\<close>

lemma Pipe_put_steps:
  assumes r: "Pipe_put p obj = Returned p1"
  shows "step\<^sup>*\<^sup>* (cfg p (Calling (Put obj # ops)) cn obs) (cfg p1 (Calling ops) cn obs)"
proof (cases "stop_sending p")
  case True
  with r have "p1 = p" by (simp add: Pipe_put_def)
  with True show ?thesis by (intro producer_stepsI) simp
next
  case False
  let ?p = "buffer_append p obj"
  have ns: "\<not> stop_sending ?p" using False by (simp add: buffer_append_def)
  have s1: "step\<^sup>*\<^sup>* (cfg p (Calling (Put obj # ops)) cn obs) (cfg p (Put_append obj ops) cn obs)"
    using False by (intro producer_stepsI) simp
  show ?thesis
  proof (cases "buffer_size ?p \<le> int (length (heap ?p (buffer ?p)))")
    case below: False
    with r False have p1: "p1 = ?p" by (simp add: Pipe_put_def Let_def)
    note s1
    also have "step\<^sup>*\<^sup>* (cfg p (Put_append obj ops) cn obs) (cfg p1 (Calling ops) cn obs)"
      using below by (intro producer_stepsI) (simp add: Let_def p1)
    finally show ?thesis .
  next
    case True
    with r False ns have nf: "\<not> Queue_full ?p"
      and p1: "p1 = new_buffer (Queue_put ?p (buffer ?p))"
      by (auto simp add: Pipe_put_def Let_def send_buffer_def split: if_splits)
    note s1
    also have "step\<^sup>*\<^sup>* (cfg p (Put_append obj ops) cn obs) (cfg ?p (Put_send ops) cn obs)"
      using True by (intro producer_stepsI) (simp add: Let_def)
    also have "step\<^sup>*\<^sup>* (cfg ?p (Put_send ops) cn obs) (cfg ?p (Put_enqueue ops) cn obs)"
      using ns by (intro producer_stepsI) simp
    also have "step\<^sup>*\<^sup>* (cfg ?p (Put_enqueue ops) cn obs)
        (cfg (Queue_put ?p (buffer ?p)) (Put_reset ops) cn obs)"
      using nf by (intro producer_stepsI) simp
    also have "step\<^sup>*\<^sup>* (cfg (Queue_put ?p (buffer ?p)) (Put_reset ops) cn obs)
        (cfg p1 (Calling ops) cn obs)"
      by (intro producer_stepsI) (simp add: p1)
    finally show ?thesis .
  qed
qed

lemma Pipe_flush_steps:
  assumes r: "Pipe_flush p = Returned p1"
  shows "step\<^sup>*\<^sup>* (cfg p (Calling (Flush # ops)) cn obs) (cfg p1 (Calling ops) cn obs)"
proof -
  have s1: "step\<^sup>*\<^sup>* (cfg p (Calling (Flush # ops)) cn obs) (cfg p (Flush_send ops) cn obs)"
    by (intro producer_stepsI) simp
  show ?thesis
  proof (cases "stop_sending p")
    case True
    with r have p1: "p1 = p\<lparr>finished := True\<rparr>"
      by (simp add: Pipe_flush_def send_buffer_def)
    note s1
    also have "step\<^sup>*\<^sup>* (cfg p (Flush_send ops) cn obs) (cfg p (Flush_finish ops) cn obs)"
      using True by (intro producer_stepsI) simp
    also have "step\<^sup>*\<^sup>* (cfg p (Flush_finish ops) cn obs) (cfg p1 (Calling ops) cn obs)"
      by (intro producer_stepsI) (simp add: p1)
    finally show ?thesis .
  next
    case False
    with r have nf: "\<not> Queue_full p"
      and p1: "p1 = (Queue_put p (buffer p))\<lparr>finished := True\<rparr>"
      by (auto simp add: Pipe_flush_def send_buffer_def split: if_splits)
    note s1
    also have "step\<^sup>*\<^sup>* (cfg p (Flush_send ops) cn obs) (cfg p (Flush_enqueue ops) cn obs)"
      using False by (intro producer_stepsI) simp
    also have "step\<^sup>*\<^sup>* (cfg p (Flush_enqueue ops) cn obs)
        (cfg (Queue_put p (buffer p)) (Flush_finish ops) cn obs)"
      using nf by (intro producer_stepsI) simp
    also have "step\<^sup>*\<^sup>* (cfg (Queue_put p (buffer p)) (Flush_finish ops) cn obs)
        (cfg p1 (Calling ops) cn obs)"
      by (intro producer_stepsI) (simp add: p1)
    finally show ?thesis .
  qed
qed

lemma run_ops_steps:
  "run_ops p cs = Returned p1 \<Longrightarrow>
   step\<^sup>*\<^sup>* (cfg p (Calling (cs @ ops)) cn obs) (cfg p1 (Calling ops) cn obs)"
proof (induction cs arbitrary: p)
  case Nil
  then show ?case by simp
next
  case (Cons c cs)
  from Cons.prems obtain p2 where a: "run_op p c = Returned p2" and b: "run_ops p2 cs = Returned p1"
    by (cases "run_op p c") simp_all
  have "step\<^sup>*\<^sup>* (cfg p (Calling (c # cs @ ops)) cn obs) (cfg p2 (Calling (cs @ ops)) cn obs)"
    using a by (cases c) (simp_all add: Pipe_put_steps Pipe_flush_steps)
  with Cons.IH [OF b] show ?case by simp
qed

lemma rows_loop_Nil: "queue p = [] \<Longrightarrow> rows_loop p seen = Suspended (seen, p)"
  by (simp add: rows_loop.simps [of p])

lemma rows_loop_Cons:
  "queue p = r # rs \<Longrightarrow>
   rows_loop p seen =
     (if unfinished_tasks p = 0 then Raised ValueError (seen @ heap p r, p\<lparr>queue := rs\<rparr>)
      else if finished p \<and> rs = []
        then Returned (seen @ heap p r,
          p\<lparr>queue := rs, unfinished_tasks := unfinished_tasks p - 1\<rparr>)
      else rows_loop (p\<lparr>queue := rs, unfinished_tasks := unfinished_tasks p - 1\<rparr>)
          (seen @ heap p r))"
  by (simp add: rows_loop.simps [of p] Let_def Queue_task_done_def)


lemma rows_loop_steps:
  "rows_loop p seen = Returned (rs, p1) \<Longrightarrow>
   \<exists>ys. rs = seen @ ys \<and> step\<^sup>*\<^sup>* (cfg p pr Get obs) (cfg p1 pr Ended (obs @ ys))"
proof (induction "queue p" arbitrary: p seen obs)
  case Nil
  then show ?case by (simp add: rows_loop_Nil)
next
  case (Cons r q)
  let ?p = "p\<lparr>queue := q, unfinished_tasks := unfinished_tasks p - 1\<rparr>"
  let ?obs = "obs @ heap p r"
  have qp: "queue p = r # q" using Cons(2) by simp
  have u: "0 < unfinished_tasks p"
    using Cons.prems by (simp add: rows_loop_Cons [OF qp] split: if_splits)
  have a: "step\<^sup>*\<^sup>* (cfg p pr Get obs) (cfg ?p pr Check ?obs)"
    by (rule take_batch [OF qp u])
  show ?case
  proof (cases "finished p \<and> q = []")
    case True
    with Cons.prems u have e: "rs = seen @ heap p r" "p1 = ?p"
      by (simp_all add: rows_loop_Cons [OF qp])
    note a
    also have "step\<^sup>*\<^sup>* (cfg ?p pr Check ?obs) (cfg ?p pr Check_empty ?obs)"
      using True by (intro consumer_silentI) simp
    also have "step\<^sup>*\<^sup>* (cfg ?p pr Check_empty ?obs) (cfg ?p pr Ended ?obs)"
      using True by (intro consumer_silentI) simp
    finally have "step\<^sup>*\<^sup>* (cfg p pr Get obs) (cfg ?p pr Ended ?obs)" .
    with e show ?thesis by auto
  next
    case False
    with Cons.prems u have r: "rows_loop ?p (seen @ heap p r) = Returned (rs, p1)"
      by (simp add: rows_loop_Cons [OF qp])
    have again: "step\<^sup>*\<^sup>* (cfg ?p pr Check ?obs) (cfg ?p pr Get ?obs)"
    proof (cases "finished p")
      case unfinished: False
      then show ?thesis by (intro consumer_silentI) simp
    next
      case True
      with False have q: "q \<noteq> []" by simp
      have "step\<^sup>*\<^sup>* (cfg ?p pr Check ?obs) (cfg ?p pr Check_empty ?obs)"
        using True by (intro consumer_silentI) simp
      also have "step\<^sup>*\<^sup>* (cfg ?p pr Check_empty ?obs) (cfg ?p pr Get ?obs)"
        using q by (intro consumer_silentI) simp
      finally show ?thesis .
    qed
    have "q = queue ?p" by simp
    from Cons(1) [OF this r, of ?obs]
    obtain ys where ys: "rs = (seen @ heap p r) @ ys"
      and s: "step\<^sup>*\<^sup>* (cfg ?p pr Get ?obs) (cfg p1 pr Ended (?obs @ ys))"
      by blast
    note a also note again also note s
    finally have "step\<^sup>*\<^sup>* (cfg p pr Get obs) (cfg p1 pr Ended (obs @ heap p r @ ys))"
      by simp
    with ys show ?thesis by auto
  qed
qed

lemma rows_loop_returns:
  "finished p \<Longrightarrow> queue p \<noteq> [] \<Longrightarrow> length (queue p) \<le> unfinished_tasks p \<Longrightarrow>
   \<exists>rs p1. rows_loop p seen = Returned (rs, p1)"
proof (induction "queue p" arbitrary: p seen)
  case Nil
  then show ?case by simp
next
  case (Cons r q)
  have qp: "queue p = r # q" using Cons(2) by simp
  show ?case
  proof (cases "q = []")
    case True
    with Cons.prems qp show ?thesis by (simp add: rows_loop_Cons [OF qp])
  next
    case False
    let ?p = "p\<lparr>queue := q, unfinished_tasks := unfinished_tasks p - 1\<rparr>"
    have "\<exists>rs p1. rows_loop ?p (seen @ heap p r) = Returned (rs, p1)"
      using Cons.prems qp False by (intro Cons(1)) simp_all
    with Cons.prems qp False show ?thesis by (simp add: rows_loop_Cons [OF qp])
  qed
qed

lemma run_ops_flush_queue:
  assumes "run_ops p (cs @ [Flush]) = Returned p1" and "\<not> stop_sending p1"
  shows "queue p1 \<noteq> []"
proof -
  from assms(1) obtain p2 where "run_ops p cs = Returned p2" and f: "Pipe_flush p2 = Returned p1"
    by (cases "run_ops p cs"; cases "Pipe_flush (case run_ops p cs of Returned s \<Rightarrow> s)")
      (auto simp add: run_ops_append)
  show ?thesis
    using f assms(2)
    by (auto simp add: Pipe_flush_def send_buffer_def Queue_put_def split: if_splits)
qed

text \<open>
  The producer's calls made first, then the drain: when every call of the producer returns
  without the consumer, the drain returns exactly the rows put.
\<close>

lemma drain_after_producer:
  assumes r: "run_ops (Pipe_init bsize qsize) (map Put rows @ [Flush]) = Returned p"
  shows "\<exists>p1. Pipe_rows p = Returned (rows, p1)"
proof -
  have s: "step\<^sup>*\<^sup>* (start bsize qsize rows) (cfg p (Calling []) Get [])"
    using run_ops_steps [OF r, of "[]" Get "[]"] by (simp add: start_def)
  have i: "delivered rows (cfg p (Calling []) Get [])"
    by (rule inv_steps [OF s inv_start])
  then have f: "finished p" and ns: "\<not> stop_sending p"
    and u: "length (queue p) \<le> unfinished_tasks p"
    by (simp_all add: delivered_def in_hand_def)
  have q: "queue p \<noteq> []" by (rule run_ops_flush_queue [OF r ns])
  obtain rs p1 where l: "rows_loop p [] = Returned (rs, p1)"
    using rows_loop_returns [OF f q u] by blast
  obtain ys where ys: "rs = [] @ ys"
    and t: "step\<^sup>*\<^sup>* (cfg p (Calling []) Get []) (cfg p1 (Calling []) Ended ([] @ ys))"
    using rows_loop_steps [OF l] by blast
  have "delivered rows (cfg p1 (Calling []) Ended ([] @ ys))"
    by (rule inv_steps [OF t i])
  then have "ys = rows" using inv_Ended by fastforce
  with l ys show ?thesis by (simp add: Pipe_rows_def)
qed

subsection \<open>Loops over the outputs of a node\<close>

lemma Pipe_put_not_Raised: "Pipe_put p obj = Raised e p1 \<Longrightarrow> False"
  by (auto simp add: Pipe_put_def Let_def send_buffer_def split: if_splits)

lemma obj_put_not_Raised: "obj_put out obj = Raised e out1 \<Longrightarrow> False"
proof (cases out)
  case (SimpleDataPipe s)
  assume "obj_put out obj = Raised e out1"
  with SimpleDataPipe show False by (simp add: SimpleDataPipe_put_def)
next
  case (Pipe p)
  assume "obj_put out obj = Raised e out1"
  with Pipe show False
    by (cases "Pipe_put p obj") (auto dest: Pipe_put_not_Raised)
qed

lemma put_loop_not_Raised: "put_loop C st rs obj k = Raised e x \<Longrightarrow> False"
proof (induction rs arbitrary: st k)
  case Nil
  then show ?case by simp
next
  case (Cons r rs)
  show ?case
  proof (cases "C (st r)")
    case True
    with Cons show ?thesis by simp
  next
    case False
    with Cons show ?thesis
      by (cases "obj_put (st r) obj") (auto dest: obj_put_not_Raised)
  qed
qed

lemma put_loop_all_closed:
  "\<forall>r \<in> set rs. C (st r) \<Longrightarrow> put_loop C st rs obj k = Returned (st, k)"
  by (induction rs) simp_all

lemma put_loop_count:
  "put_loop C st rs obj k = Returned (st1, k1) \<Longrightarrow> k \<le> k1 \<and> (k1 = k \<longrightarrow> (\<forall>r \<in> set rs. C (st r)))"
proof (induction rs arbitrary: st k)
  case Nil
  then show ?case by simp
next
  case (Cons r rs)
  show ?case
  proof (cases "C (st r)")
    case True
    with Cons.prems have "put_loop C st rs obj k = Returned (st1, k1)" by simp
    from Cons.IH [OF this] True show ?thesis by simp
  next
    case False
    with Cons.prems obtain out where "obj_put (st r) obj = Returned out"
      and "put_loop C (st(r := out)) rs obj (k + 1) = Returned (st1, k1)"
      by (cases "obj_put (st r) obj") simp_all
    from Cons.IH [OF this(2)] show ?thesis by simp
  qed
qed

lemma put_loop_delivers:
  "distinct rs \<Longrightarrow> \<forall>r \<in> set rs. \<not> C (st r) \<longrightarrow> (\<exists>out. obj_put (st r) obj = Returned out) \<Longrightarrow>
   \<exists>st1. put_loop C st rs obj k = Returned (st1, k + length (filter (\<lambda>r. \<not> C (st r)) rs)) \<and>
     (\<forall>r. if r \<in> set rs \<and> \<not> C (st r) then obj_put (st r) obj = Returned (st1 r)
          else st1 r = st r)"
proof (induction rs arbitrary: st k)
  case Nil
  show ?case by simp
next
  case (Cons r rs)
  have nr: "r \<notin> set rs" and d: "distinct rs" using Cons.prems(1) by simp_all
  show ?case
  proof (cases "C (st r)")
    case True
    have "\<forall>r \<in> set rs. \<not> C (st r) \<longrightarrow> (\<exists>out. obj_put (st r) obj = Returned out)"
      using Cons.prems(2) by simp
    from Cons.IH [OF d this, of k] obtain st1 where
      "put_loop C st rs obj k = Returned (st1, k + length (filter (\<lambda>r. \<not> C (st r)) rs))"
      and "\<forall>r. if r \<in> set rs \<and> \<not> C (st r) then obj_put (st r) obj = Returned (st1 r)
          else st1 r = st r"
      by blast
    with True show ?thesis by (intro exI [of _ st1]) auto
  next
    case False
    then obtain out where out: "obj_put (st r) obj = Returned out"
      using Cons.prems(2) by auto
    let ?st = "st(r := out)"
    have same: "\<And>x. x \<in> set rs \<Longrightarrow> ?st x = st x" using nr by auto
    have "\<forall>r \<in> set rs. \<not> C (?st r) \<longrightarrow> (\<exists>out. obj_put (?st r) obj = Returned out)"
      using Cons.prems(2) same by simp
    from Cons.IH [OF d this, of "k + 1"] obtain st1 where
      l: "put_loop C ?st rs obj (k + 1) =
           Returned (st1, k + 1 + length (filter (\<lambda>r. \<not> C (?st r)) rs))"
      and e: "\<forall>x. if x \<in> set rs \<and> \<not> C (?st x) then obj_put (?st x) obj = Returned (st1 x)
          else st1 x = ?st x"
      by blast
    have f: "filter (\<lambda>r. \<not> C (?st r)) rs = filter (\<lambda>r. \<not> C (st r)) rs"
      using same by (intro filter_cong) simp_all
    have "put_loop C st (r # rs) obj k =
          Returned (st1, k + length (filter (\<lambda>r. \<not> C (st r)) (r # rs)))"
      using False out l f by simp
    moreover have "\<forall>x. if x \<in> set (r # rs) \<and> \<not> C (st x) then obj_put (st x) obj = Returned (st1 x)
          else st1 x = st x"
    proof
      fix x
      show "if x \<in> set (r # rs) \<and> \<not> C (st x) then obj_put (st x) obj = Returned (st1 x)
          else st1 x = st x"
      proof (cases "x = r")
        case True
        with e nr out False show ?thesis by (auto split: if_splits)
      next
        case False
        with e [rule_format, of x] show ?thesis by (auto split: if_splits)
      qed
    qed
    ultimately show ?thesis by blast
  qed
qed

lemma closed_eq: "closed = obj_stop_sending"
proof
  fix out :: "'a pipe_obj"
  show "closed out = obj_stop_sending out" by (cases out) simp_all
qed

lemma all_closed_count:
  "length (filter P xs) = length xs \<longleftrightarrow> (\<forall>x \<in> set xs. P x)"
  by (metis filter_True length_filter_less less_irrefl_nat)

lemma obj_put_record_Raised: "obj_put_record out record = Raised e out1 \<Longrightarrow> e = AttributeError"
proof (cases out)
  case (SimpleDataPipe s)
  assume "obj_put_record out record = Raised e out1"
  with SimpleDataPipe show ?thesis
    by (auto simp add: SimpleDataPipe_put_record_def SimpleDataPipe_put_def split: option.splits)
next
  case (Pipe p)
  assume r: "obj_put_record out record = Raised e out1"
  show ?thesis
  proof (cases "fieldlist p")
    case None
    with Pipe r show ?thesis by (simp add: Pipe_put_record_def)
  next
    case (Some names)
    with Pipe r show ?thesis
      by (cases "Pipe_put p (record_row record names [])")
        (auto simp add: Pipe_put_record_def dest: Pipe_put_not_Raised)
  qed
qed

lemma put_record_loop_Raised:
  "put_record_loop st rs record = Raised e st1 \<Longrightarrow> e = AttributeError"
proof (induction rs arbitrary: st)
  case Nil
  then show ?case by simp
next
  case (Cons r rs)
  then show ?case
    by (cases "obj_put_record (st r) record") (auto dest: obj_put_record_Raised)
qed

lemma put_record_loop_writes:
  "distinct rs \<Longrightarrow> \<forall>r \<in> set rs. \<exists>out. obj_put_record (st r) record = Returned out \<Longrightarrow>
   \<exists>st1. put_record_loop st rs record = Returned st1 \<and>
     (\<forall>r. if r \<in> set rs then obj_put_record (st r) record = Returned (st1 r) else st1 r = st r)"
proof (induction rs arbitrary: st)
  case Nil
  show ?case by simp
next
  case (Cons r rs)
  have nr: "r \<notin> set rs" and d: "distinct rs" using Cons.prems(1) by simp_all
  obtain out where out: "obj_put_record (st r) record = Returned out"
    using Cons.prems(2) by auto
  let ?st = "st(r := out)"
  have same: "\<And>x. x \<in> set rs \<Longrightarrow> ?st x = st x" using nr by auto
  have "\<forall>r \<in> set rs. \<exists>out. obj_put_record (?st r) record = Returned out"
    using Cons.prems(2) same by simp
  from Cons.IH [OF d this] obtain st1 where
    l: "put_record_loop ?st rs record = Returned st1"
    and e: "\<forall>x. if x \<in> set rs then obj_put_record (?st x) record = Returned (st1 x)
          else st1 x = ?st x"
    by blast
  have "put_record_loop st (r # rs) record = Returned st1"
    using out l by simp
  moreover have "\<forall>x. if x \<in> set (r # rs) then obj_put_record (st x) record = Returned (st1 x)
          else st1 x = st x"
  proof
    fix x
    show "if x \<in> set (r # rs) then obj_put_record (st x) record = Returned (st1 x)
          else st1 x = st x"
    proof (cases "x = r")
      case True
      with e nr out show ?thesis by (auto split: if_splits)
    next
      case False
      with e [rule_format, of x] show ?thesis by (auto split: if_splits)
    qed
  qed
  ultimately show ?case by blast
qed

section \<open>The claims\<close>

text \<open>
  C1. A producer puts \<open>rows\<close> into a new pipe of any capacity and any queue depth, one
  \<open>put\<close> each, then calls \<open>flush\<close> once, while the consumer iterates \<open>rows()\<close>.
  Whatever the interleaving of the two threads: what the consumer has observed is at every
  moment an initial part of \<open>rows\<close>, and once its row sequence has ended, or no thread can
  move any more, it has observed exactly \<open>rows\<close>, in order, nothing lost and nothing
  twice. Some interleaving does end the row sequence. And when the producer makes all its
  calls before the consumer starts and they all return, iterating \<open>rows()\<close> to its end
  returns exactly \<open>rows\<close>.
\<close>

theorem pipe_delivers_rows:
  "(\<exists>c. step\<^sup>*\<^sup>* (start bsize qsize rows) c \<and> consumer c = Ended) \<and>
   (\<forall>c. step\<^sup>*\<^sup>* (start bsize qsize rows) c \<longrightarrow>
      (\<exists>rest. rows = observed c @ rest) \<and>
      (consumer c = Ended \<or> terminal c \<longrightarrow> observed c = rows)) \<and>
   (\<forall>p. run_ops (Pipe_init bsize qsize) (map Put rows @ [Flush]) = Returned p \<longrightarrow>
      (\<exists>p1. Pipe_rows p = Returned (rows, p1)))"
  using start_ends inv_steps [OF _ inv_start] inv_prefix inv_Ended inv_terminal
    drain_after_producer
  by metis

theorem pipe_delivers_rows_witness:
  "map_option consumer
     (run_schedule
        [True, True, True, True, True, True, True, True, True, True, True, True, True,
         True, True, False, True, True, False, False, False, False, False, False, False,
         False, False, False, False, False, False, False]
        (start 3 1 [1, 2, 3, 4, 5 :: nat])) = Some Ended \<and>
   map_option observed
     (run_schedule
        [True, True, True, True, True, True, True, True, True, True, True, True, True,
         True, True, False, True, True, False, False, False, False, False, False, False,
         False, False, False, False, False, False, False]
        (start 3 1 [1, 2, 3, 4, 5 :: nat])) = Some [1, 2, 3, 4, 5] \<and>
   map_option (\<lambda>c. (consumer c, terminal c))
     (run_schedule
        [True, True, True, True, True, True, True, True, False, False, False, False,
         False, False, False, True, True, True, True, True, True, True, True, False,
         False, False, False, False, False, True]
        (start 3 1 [1, 2, 3, 4, 5 :: nat])) = Some (Get, True) \<and>
   map_option observed
     (run_schedule
        [True, True, True, True, True, True, True, True, False, False, False, False,
         False, False, False, True, True, True, True, True, True, True, True, False,
         False, False, False, False, False, True]
        (start 3 1 [1, 2, 3, 4, 5 :: nat])) = Some [1, 2, 3, 4, 5]"
proof -
  let ?s = "start 3 1 [1, 2, 3, 4, 5 :: nat]"
  let ?lazy = "[True, True, True, True, True, True, True, True, True, True, True, True, True,
         True, True, False, True, True, False, False, False, False, False, False, False,
         False, False, False, False, False, False, False]"
  let ?eager = "[True, True, True, True, True, True, True, True, False, False, False, False,
         False, False, False, True, True, True, True, True, True, True, True, False,
         False, False, False, False, False, True]"
  have l: "map_option consumer (run_schedule ?lazy ?s) = Some Ended"
    by (simp add: start_def Pipe_init_def new_buffer_def buffer_append_def Queue_full_def
        Queue_put_def Queue_task_done_def Let_def)
  then obtain c where c: "run_schedule ?lazy ?s = Some c" and ce: "consumer c = Ended"
    by auto
  have "step\<^sup>*\<^sup>* ?s c" using c by (rule run_schedule_steps)
  with ce have co: "observed c = [1, 2, 3, 4, 5]"
    using pipe_delivers_rows [of 3 1 "[1, 2, 3, 4, 5 :: nat]"] by blast
  have e: "map_option (\<lambda>c. (consumer c, terminal c)) (run_schedule ?eager ?s) = Some (Get, True)"
    by (simp add: start_def Pipe_init_def new_buffer_def buffer_append_def Queue_full_def
        Queue_put_def Queue_task_done_def Let_def terminal_def)
  then obtain d where d: "run_schedule ?eager ?s = Some d" and dt: "terminal d"
    by auto
  have "step\<^sup>*\<^sup>* ?s d" using d by (rule run_schedule_steps)
  with dt have do: "observed d = [1, 2, 3, 4, 5]"
    using pipe_delivers_rows [of 3 1 "[1, 2, 3, 4, 5 :: nat]"] by blast
  have dg: "consumer d = Get" using e unfolding d by simp
  show ?thesis
    unfolding c d using ce co dg dt do by simp
qed

text \<open>
  C2. \<open>Node.put\<close> on a node with N outputs of which M are closed for write raises
  \<open>NodeFinished\<close> exactly when M = N (so also when N = 0). When the outputs are distinct
  pipes and no open output suspends the call, \<open>put\<close> has been run with the row on
  every output that is not closed, every other pipe is as it was, and the outputs that
  received the row are N - M. The copy of \<open>Node.put\<close> in pipes/base.py behaves the same.
\<close>

theorem Node_put_delivers:
  "Node_put_pipes_base n st obj = Node_put n st obj \<and>
   ((\<exists>st1. Node_put n st obj = Raised NodeFinished st1) \<longleftrightarrow>
      length (filter (\<lambda>r. closed (st r)) (outputs n)) = length (outputs n)) \<and>
   (distinct (outputs n) \<and>
    (\<forall>r \<in> set (outputs n). \<not> closed (st r) \<longrightarrow> (\<exists>out. obj_put (st r) obj = Returned out)) \<longrightarrow>
      (\<exists>st1.
         (Node_put n st obj = Returned st1 \<or> Node_put n st obj = Raised NodeFinished st1) \<and>
         (\<forall>r. if r \<in> set (outputs n) \<and> \<not> closed (st r)
              then obj_put (st r) obj = Returned (st1 r) else st1 r = st r) \<and>
         card {r \<in> set (outputs n). obj_put (st r) obj = Returned (st1 r) \<and> \<not> closed (st r)} =
           length (outputs n) - length (filter (\<lambda>r. closed (st r)) (outputs n))))"
proof (intro conjI impI)
  show "Node_put_pipes_base n st obj = Node_put n st obj"
    by (simp add: Node_put_pipes_base_def Node_put_def closed_eq)
next
  show "(\<exists>st1. Node_put n st obj = Raised NodeFinished st1) \<longleftrightarrow>
      length (filter (\<lambda>r. closed (st r)) (outputs n)) = length (outputs n)"
  proof
    assume "\<exists>st1. Node_put n st obj = Raised NodeFinished st1"
    then obtain st1 where r: "Node_put n st obj = Raised NodeFinished st1" by blast
    have "put_loop closed st (outputs n) obj 0 = Returned (st1, 0)"
    proof (cases "put_loop closed st (outputs n) obj 0")
      case (Returned x)
      with r show ?thesis
        by (cases x) (auto simp add: Node_put_def put_with_def split: if_splits)
    next
      case (Raised e x)
      then have False by (rule put_loop_not_Raised)
      then show ?thesis ..
    next
      case (Suspended x)
      with r show ?thesis by (cases x) (simp add: Node_put_def put_with_def)
    qed
    from put_loop_count [OF this] show "length (filter (\<lambda>r. closed (st r)) (outputs n)) = length (outputs n)"
      by (simp add: all_closed_count)
  next
    assume "length (filter (\<lambda>r. closed (st r)) (outputs n)) = length (outputs n)"
    then have "\<forall>r \<in> set (outputs n). closed (st r)" by (simp add: all_closed_count)
    from put_loop_all_closed [of "outputs n" closed st obj 0, OF this]
    show "\<exists>st1. Node_put n st obj = Raised NodeFinished st1"
      by (simp add: Node_put_def put_with_def)
  qed
next
  assume a: "distinct (outputs n) \<and>
    (\<forall>r \<in> set (outputs n). \<not> closed (st r) \<longrightarrow> (\<exists>out. obj_put (st r) obj = Returned out))"
  then obtain st1 where
    l: "put_loop closed st (outputs n) obj 0 =
          Returned (st1, 0 + length (filter (\<lambda>r. \<not> closed (st r)) (outputs n)))"
    and e: "\<forall>r. if r \<in> set (outputs n) \<and> \<not> closed (st r)
              then obj_put (st r) obj = Returned (st1 r) else st1 r = st r"
    using put_loop_delivers [of "outputs n" closed st obj 0] by blast
  have res: "Node_put n st obj = Returned st1 \<or> Node_put n st obj = Raised NodeFinished st1"
    using l by (simp add: Node_put_def put_with_def)
  have "{r \<in> set (outputs n). obj_put (st r) obj = Returned (st1 r) \<and> \<not> closed (st r)} =
        set (filter (\<lambda>r. \<not> closed (st r)) (outputs n))"
    using e by auto
  then have "card {r \<in> set (outputs n). obj_put (st r) obj = Returned (st1 r) \<and> \<not> closed (st r)} =
        length (filter (\<lambda>r. \<not> closed (st r)) (outputs n))"
    using a distinct_card [of "filter (\<lambda>r. \<not> closed (st r)) (outputs n)"] by simp
  moreover have "length (filter (\<lambda>r. \<not> closed (st r)) (outputs n)) =
      length (outputs n) - length (filter (\<lambda>r. closed (st r)) (outputs n))"
    using sum_length_filter_compl [of "\<lambda>r. closed (st r)" "outputs n"] by simp
  ultimately show "\<exists>st1.
         (Node_put n st obj = Returned st1 \<or> Node_put n st obj = Raised NodeFinished st1) \<and>
         (\<forall>r. if r \<in> set (outputs n) \<and> \<not> closed (st r)
              then obj_put (st r) obj = Returned (st1 r) else st1 r = st r) \<and>
         card {r \<in> set (outputs n). obj_put (st r) obj = Returned (st1 r) \<and> \<not> closed (st r)} =
           length (outputs n) - length (filter (\<lambda>r. closed (st r)) (outputs n))"
    using res e by (intro exI [of _ st1]) simp
qed

theorem Node_put_delivers_witness:
  "length (filter (\<lambda>r. closed
       (((\<lambda>_. SimpleDataPipe (SimpleDataPipe_init :: nat simple_pipe))
          (0 := Pipe (Pipe_stop (Pipe_init 3 1 :: nat pipe)), 1 := Pipe (Pipe_init 3 1 :: nat pipe))) r))
     (outputs ((Node_init NodeClass)\<lparr>outputs := [0, 1]\<rparr>))) = 1 \<and>
   (\<exists>st1.
      Node_put ((Node_init NodeClass)\<lparr>outputs := [0, 1]\<rparr>)
        ((\<lambda>_. SimpleDataPipe (SimpleDataPipe_init :: nat simple_pipe))
           (0 := Pipe (Pipe_stop (Pipe_init 3 1 :: nat pipe)), 1 := Pipe (Pipe_init 3 1 :: nat pipe)))
        (7 :: nat) = Returned st1 \<and>
      st1 0 = Pipe (Pipe_stop (Pipe_init 3 1 :: nat pipe)) \<and>
      st1 1 = Pipe (buffer_append (Pipe_init 3 1 :: nat pipe) 7))"
proof -
  let ?n = "(Node_init NodeClass)\<lparr>outputs := [0, 1]\<rparr>"
  let ?st = "(\<lambda>_ :: ref. SimpleDataPipe SimpleDataPipe_init)
     (0 := Pipe (Pipe_stop (Pipe_init 3 1)), 1 := Pipe (Pipe_init 3 1 :: nat pipe))"
  have c0: "closed (?st 0)"
    by (simp add: Pipe_stop_def Pipe_init_def new_buffer_def stop_drain.simps)
  have c1: "\<not> closed (?st 1)"
    by (simp add: Pipe_init_def new_buffer_def)
  have o: "outputs ?n = [0, 1]" by (simp add: Node_init_def)
  have m: "length (filter (\<lambda>r. closed (?st r)) (outputs ?n)) = 1"
    using c0 c1 by (simp add: o)
  have p1: "obj_put (?st 1) 7 = Returned (Pipe (buffer_append (Pipe_init 3 1) 7))"
    by (simp add: Pipe_put_def Let_def Pipe_init_def new_buffer_def buffer_append_def)
  have h: "distinct (outputs ?n) \<and>
      (\<forall>r \<in> set (outputs ?n). \<not> closed (?st r) \<longrightarrow> (\<exists>out. obj_put (?st r) 7 = Returned out))"
    using c0 p1 by (simp add: o)
  have nf: "\<not> (\<exists>st1. Node_put ?n ?st 7 = Raised NodeFinished st1)"
    using Node_put_delivers [of ?n ?st 7] m by (simp add: o)
  obtain st1 where
    r: "Node_put ?n ?st 7 = Returned st1 \<or> Node_put ?n ?st 7 = Raised NodeFinished st1"
    and e: "\<forall>r. if r \<in> set (outputs ?n) \<and> \<not> closed (?st r)
              then obj_put (?st r) 7 = Returned (st1 r) else st1 r = ?st r"
    using Node_put_delivers [of ?n ?st 7] h by blast
  have r1: "Node_put ?n ?st 7 = Returned st1" using r nf by blast
  have e0: "st1 0 = Pipe (Pipe_stop (Pipe_init 3 1))"
    using e [rule_format, of 0] c0 by simp
  have e1: "st1 1 = Pipe (buffer_append (Pipe_init 3 1) 7)"
    using e [rule_format, of 1] c1 p1 by (simp add: o)
  show ?thesis
    by (intro conjI exI [of _ st1]) (rule m, rule r1, rule e0, rule e1)
qed

text \<open>
  C3. On a pipe whose \<open>stop_sending\<close> flag is set, \<open>Pipe.put\<close> returns (it neither
  raises nor suspends) and leaves the whole pipe state as it was: nothing is appended to
  the buffer, nothing is handed to the queue, so the row can reach no consumer. The same
  holds for any number of \<open>put\<close> calls that follow.
\<close>

theorem Pipe_put_stopped_noop:
  "stop_sending p \<Longrightarrow> Pipe_put p obj = Returned p \<and> run_ops p (map Put rs) = Returned p"
  by (induction rs) (simp_all add: Pipe_put_def)

theorem Pipe_put_stopped_noop_witness:
  "stop_sending (Pipe_stop (Pipe_init 3 1 :: nat pipe)) \<and>
   Pipe_put (Pipe_stop (Pipe_init 3 1)) (7::nat) = Returned (Pipe_stop (Pipe_init 3 1)) \<and>
   run_ops (Pipe_stop (Pipe_init 3 1)) [Put (7::nat), Put 8, Put 9, Put 10] =
     Returned (Pipe_stop (Pipe_init 3 1))"
proof -
  have h: "stop_sending (Pipe_stop (Pipe_init 3 1 :: nat pipe))"
    by (simp add: Pipe_stop_def Pipe_init_def new_buffer_def stop_drain.simps)
  note t = Pipe_put_stopped_noop [OF h, of 7 "[7, 8, 9, 10]"]
  from t have a: "Pipe_put (Pipe_stop (Pipe_init 3 1)) (7::nat) = Returned (Pipe_stop (Pipe_init 3 1))"
    by (rule conjunct1)
  from t have "run_ops (Pipe_stop (Pipe_init 3 1)) (map Put [7::nat, 8, 9, 10]) =
      Returned (Pipe_stop (Pipe_init 3 1))"
    by (rule conjunct2)
  then have b: "run_ops (Pipe_stop (Pipe_init 3 1)) [Put (7::nat), Put 8, Put 9, Put 10] =
      Returned (Pipe_stop (Pipe_init 3 1))"
    by (simp only: list.map)
  show ?thesis
    by (intro conjI) (rule h, rule a, rule b)
qed



text \<open>
  C5 (amended). \<open>flush\<close> sets \<open>finished\<close>, and \<open>put\<close> never reads it: a \<open>put\<close>
  after \<open>flush\<close> hands the buffer to the queue as a further batch exactly when the
  pipe is not closed for write and the row brings the buffer to its capacity; otherwise it
  leaves the queue as it is.
\<close>

theorem put_after_flush:
  "Pipe_flush p = Returned p1 \<Longrightarrow> Pipe_put p1 obj = Returned p2 \<Longrightarrow>
   finished p1 \<and> finished p2 \<and>
   queue p2 =
     (if \<not> stop_sending p1 \<and> buffer_size p1 \<le> int (length (heap p1 (buffer p1))) + 1
      then queue p1 @ [buffer p1] else queue p1)"
  by (auto simp add: Pipe_flush_def Pipe_put_def send_buffer_def Let_def buffer_append_def
      Queue_put_def new_buffer_def split: if_splits)

theorem put_after_flush_witness:
  "Pipe_flush (buffer_append (Pipe_init 2 0) (1 :: nat)) =
     Returned ((Queue_put (buffer_append (Pipe_init 2 0) 1) 1)\<lparr>finished := True\<rparr>) \<and>
   Pipe_put ((Queue_put (buffer_append (Pipe_init 2 0) (1 :: nat)) 1)\<lparr>finished := True\<rparr>) 2 =
     Returned (new_buffer (Queue_put (buffer_append
       ((Queue_put (buffer_append (Pipe_init 2 0) 1) 1)\<lparr>finished := True\<rparr>) 2) 1)) \<and>
   finished ((Queue_put (buffer_append (Pipe_init 2 0) (1 :: nat)) 1)\<lparr>finished := True\<rparr>) \<and>
   queue (new_buffer (Queue_put (buffer_append
       ((Queue_put (buffer_append (Pipe_init 2 0) (1 :: nat)) 1)\<lparr>finished := True\<rparr>) 2) 1)) =
     [1, 1]"
proof -
  let ?p = "buffer_append (Pipe_init 2 0) (1 :: nat)"
  let ?p1 = "(Queue_put ?p 1)\<lparr>finished := True\<rparr>"
  let ?p2 = "new_buffer (Queue_put (buffer_append ?p1 2) 1)"
  have f: "Pipe_flush ?p = Returned ?p1"
    by (simp add: Pipe_flush_def send_buffer_def Pipe_init_def new_buffer_def buffer_append_def
        Queue_full_def Queue_put_def)
  have g: "Pipe_put ?p1 2 = Returned ?p2"
    by (simp add: Pipe_put_def send_buffer_def Let_def Pipe_init_def new_buffer_def
        buffer_append_def Queue_full_def Queue_put_def)
  have "finished ?p1 \<and> finished ?p2 \<and>
     queue ?p2 =
       (if \<not> stop_sending ?p1 \<and> buffer_size ?p1 \<le> int (length (heap ?p1 (buffer ?p1))) + 1
        then queue ?p1 @ [buffer ?p1] else queue ?p1)"
    by (rule put_after_flush [OF f g])
  moreover have "\<not> stop_sending ?p1 \<and> buffer_size ?p1 \<le> int (length (heap ?p1 (buffer ?p1))) + 1"
    by (simp add: Pipe_init_def new_buffer_def buffer_append_def Queue_put_def)
  moreover have "queue ?p1 @ [buffer ?p1] = [1, 1]"
    by (simp add: Pipe_init_def new_buffer_def buffer_append_def Queue_put_def)
  ultimately show ?thesis using f g by simp
qed

text \<open>
  C5 as stated (no batch is handed to the queue after \<open>flush\<close>, whatever the producer
  puts) fails: with capacity 2, after \<open>put(1)\<close> and \<open>flush()\<close> the queue holds one
  batch and \<open>finished\<close> is set; the next \<open>put(2)\<close> hands a second batch to the queue
  (the same list object again).
\<close>

theorem put_after_flush_counterexample:
  "map_outcome finished (run_ops (Pipe_init 2 0) [Put (1 :: nat), Flush]) = Returned True \<and>
   map_outcome queue (run_ops (Pipe_init 2 0) [Put (1 :: nat), Flush]) = Returned [1] \<and>
   map_outcome queue (run_ops (Pipe_init 2 0) [Put (1 :: nat), Flush, Put 2]) = Returned [1, 1]"
  by (simp add: Pipe_init_def Pipe_put_def Pipe_flush_def send_buffer_def Let_def
      buffer_append_def Queue_put_def new_buffer_def Queue_full_def)

text \<open>
  C6. On a pipe whose field list is not set (\<open>None\<close>), \<open>records\<close> raises its exception
  with no record yielded, and \<open>put_record\<close> raises (\<open>None\<close> has no \<open>names\<close>) before
  any row is built; the pipe state is unchanged in both cases.
\<close>

theorem no_fields_fails:
  "fieldlist p = None \<Longrightarrow>
   Pipe_records p = Raised PyException ([], p) \<and> Pipe_put_record p record = Raised AttributeError p"
  by (simp add: Pipe_records_def Pipe_put_record_def fields_truthy_def)

theorem no_fields_fails_witness:
  "fieldlist (Pipe_init 3 1 :: nat row pipe) = None \<and>
   Pipe_records (Pipe_init 3 1 :: nat row pipe) = Raised PyException ([], Pipe_init 3 1) \<and>
   Pipe_put_record (Pipe_init 3 1 :: nat row pipe) [''a'' \<mapsto> Some 1] =
     Raised AttributeError (Pipe_init 3 1)"
proof -
  have h: "fieldlist (Pipe_init 3 1 :: nat row pipe) = None"
    by (simp add: Pipe_init_def new_buffer_def)
  show ?thesis using h no_fields_fails [OF h] by simp
qed

text \<open>
  C7. On a pipe of either class with a field list, \<open>put_record\<close> puts the row made of
  the record's value for each field name, in the order of the field list, with \<open>None\<close>
  for a name the record does not have.
\<close>

theorem put_record_row:
  "obj_fields out = Some names \<Longrightarrow>
   obj_put_record out record =
     obj_put out (map (\<lambda>field. case record field of None \<Rightarrow> None | Some v \<Rightarrow> v) names)"
  by (cases out) (simp_all add: SimpleDataPipe_put_record_def Pipe_put_record_def record_row_acc
      dict_get_def [abs_def])

theorem put_record_row_witness:
  "obj_fields (Pipe ((Pipe_init 3 1 :: nat row pipe)\<lparr>fieldlist := Some [''a'', ''b'']\<rparr>)) =
     Some [''a'', ''b''] \<and>
   obj_put_record (Pipe ((Pipe_init 3 1 :: nat row pipe)\<lparr>fieldlist := Some [''a'', ''b'']\<rparr>))
     [''b'' \<mapsto> Some 2] =
   obj_put (Pipe ((Pipe_init 3 1)\<lparr>fieldlist := Some [''a'', ''b'']\<rparr>)) [None, Some 2]"
proof -
  let ?out = "Pipe ((Pipe_init 3 1 :: nat row pipe)\<lparr>fieldlist := Some [''a'', ''b'']\<rparr>)"
  have h: "obj_fields ?out = Some [''a'', ''b'']" by simp
  show ?thesis using h put_record_row [OF h, of "[''b'' \<mapsto> Some 2]"] by simp
qed

text \<open>
  C8. On a \<open>SourceNode\<close>, \<open>add_input\<close> raises for every pipe; on a \<open>TargetNode\<close>,
  \<open>add_output\<close> raises for every pipe and reading \<open>output_fields\<close> raises. The node
  is left unchanged.
\<close>

theorem source_target_refuse:
  "(node_class n = SourceNodeClass \<longrightarrow> add_input n pipe = Raised PyException n) \<and>
   (node_class n = TargetNodeClass \<longrightarrow>
      add_output n pipe = Raised RuntimeError n \<and> output_fields n st = Inl RuntimeError)"
  by (simp add: add_input_def add_output_def output_fields_def SourceNode_add_input_def
      TargetNode_add_output_def TargetNode_output_fields_def)

theorem source_target_refuse_witness:
  "node_class (Node_init SourceNodeClass) = SourceNodeClass \<and>
   add_input (Node_init SourceNodeClass) 0 = Raised PyException (Node_init SourceNodeClass) \<and>
   node_class (Node_init TargetNodeClass) = TargetNodeClass \<and>
   add_output (Node_init TargetNodeClass) 0 = Raised RuntimeError (Node_init TargetNodeClass) \<and>
   output_fields (Node_init TargetNodeClass) (\<lambda>_. SimpleDataPipe (SimpleDataPipe_init :: nat simple_pipe)) =
     Inl RuntimeError \<and>
   add_input (Node_init NodeClass) 0 = Returned ((Node_init NodeClass)\<lparr>inputs := [0]\<rparr>)"
proof -
  have s: "node_class (Node_init SourceNodeClass) = SourceNodeClass"
    and t: "node_class (Node_init TargetNodeClass) = TargetNodeClass"
    by (simp_all add: Node_init_def)
  have b: "add_input (Node_init NodeClass) 0 = Returned ((Node_init NodeClass)\<lparr>inputs := [0]\<rparr>)"
    by (simp add: add_input_def Node_add_input_def Node_init_def)
  show ?thesis
    using s t b
      source_target_refuse [of "Node_init SourceNodeClass" 0]
      source_target_refuse [of "Node_init TargetNodeClass" 0
        "\<lambda>_. SimpleDataPipe (SimpleDataPipe_init :: nat simple_pipe)"]
    by simp
qed



text \<open>
  C10. \<open>Node.put_record\<close> never raises \<open>NodeFinished\<close>: with no outputs it returns,
  and when the outputs are distinct pipes whose \<open>put_record\<close> returns, it returns after
  running \<open>put_record\<close> on every output, closed for write or not (what a closed pipe
  then does with the row is up to the \<open>put\<close> of its class).
\<close>

theorem Node_put_record_unconditional:
  "(\<forall>st1. Node_put_record n st record \<noteq> Raised NodeFinished st1) \<and>
   (outputs n = [] \<longrightarrow> Node_put_record n st record = Returned st) \<and>
   (distinct (outputs n) \<and>
    (\<forall>r \<in> set (outputs n). \<exists>out. obj_put_record (st r) record = Returned out) \<longrightarrow>
      (\<exists>st1. Node_put_record n st record = Returned st1 \<and>
         (\<forall>r. if r \<in> set (outputs n) then obj_put_record (st r) record = Returned (st1 r)
              else st1 r = st r)))"
proof (intro conjI impI allI)
  fix st1
  show "Node_put_record n st record \<noteq> Raised NodeFinished st1"
    using put_record_loop_Raised [of st "outputs n" "record" NodeFinished st1]
    by (auto simp add: Node_put_record_def)
next
  assume "outputs n = []"
  then show "Node_put_record n st record = Returned st"
    by (simp add: Node_put_record_def)
next
  assume "distinct (outputs n) \<and>
    (\<forall>r \<in> set (outputs n). \<exists>out. obj_put_record (st r) record = Returned out)"
  then show "\<exists>st1. Node_put_record n st record = Returned st1 \<and>
         (\<forall>r. if r \<in> set (outputs n) then obj_put_record (st r) record = Returned (st1 r)
              else st1 r = st r)"
    using put_record_loop_writes [of "outputs n" st "record"]
    by (simp add: Node_put_record_def)
qed

theorem Node_put_record_unconditional_witness:
  "closed (SimpleDataPipe \<lparr>simple_buffer = [], simple_fields = Some [''a''],
      simple_stop_sending = True\<rparr>) \<and>
   Node_put ((Node_init NodeClass)\<lparr>outputs := [0]\<rparr>)
     (\<lambda>_. SimpleDataPipe \<lparr>simple_buffer = [], simple_fields = Some [''a''],
        simple_stop_sending = True\<rparr>) [Some (5 :: nat)] =
     Raised NodeFinished (\<lambda>_. SimpleDataPipe \<lparr>simple_buffer = [], simple_fields = Some [''a''],
        simple_stop_sending = True\<rparr>) \<and>
   (\<exists>st1. Node_put_record ((Node_init NodeClass)\<lparr>outputs := [0]\<rparr>)
       (\<lambda>_. SimpleDataPipe \<lparr>simple_buffer = [], simple_fields = Some [''a''],
          simple_stop_sending = True\<rparr>) [''a'' \<mapsto> Some (5 :: nat)] = Returned st1 \<and>
      st1 0 = SimpleDataPipe \<lparr>simple_buffer = [[Some 5]], simple_fields = Some [''a''],
          simple_stop_sending = True\<rparr>)"
proof -
  let ?s = "\<lparr>simple_buffer = [], simple_fields = Some [''a''], simple_stop_sending = True\<rparr>
    :: nat row simple_pipe"
  let ?st = "\<lambda>_ :: ref. SimpleDataPipe ?s"
  let ?n = "(Node_init NodeClass)\<lparr>outputs := [0]\<rparr>"
  let ?rec = "[''a'' \<mapsto> Some (5 :: nat)]"
  have o: "outputs ?n = [0]" by (simp add: Node_init_def)
  have c: "closed (?st 0)" by simp
  have p: "Node_put ?n ?st [Some 5] = Raised NodeFinished ?st"
    by (simp add: Node_put_def put_with_def o)
  have w: "obj_put_record (?st 0) ?rec =
      Returned (SimpleDataPipe (?s\<lparr>simple_buffer := [[Some 5]]\<rparr>))"
    by (simp add: SimpleDataPipe_put_record_def SimpleDataPipe_put_def dict_get_def)
  have h: "distinct (outputs ?n) \<and>
      (\<forall>r \<in> set (outputs ?n). \<exists>out. obj_put_record (?st r) ?rec = Returned out)"
    using w by (simp add: o)
  obtain st1 where r: "Node_put_record ?n ?st ?rec = Returned st1"
    and e: "\<forall>r. if r \<in> set (outputs ?n) then obj_put_record (?st r) ?rec = Returned (st1 r)
              else st1 r = ?st r"
    using Node_put_record_unconditional [of ?n ?st ?rec] h by blast
  have "st1 0 = SimpleDataPipe (?s\<lparr>simple_buffer := [[Some 5]]\<rparr>)"
    using e [rule_format, of 0] w by (simp add: o)
  then show ?thesis using c p r by simp
qed

end
